theory Spec2Isabelle
  imports Complex_Main
begin

section \<open>Graph Store\<close>

text \<open>
  The source builds a \<^verbatim>\<open>SmartDigraph g\<close> and uses \<^verbatim>\<open>countNodes\<close>, \<^verbatim>\<open>countArcs\<close>,
  \<^verbatim>\<open>ArcIt\<close>, \<^verbatim>\<open>g.source\<close>, \<^verbatim>\<open>g.target\<close> and \<^verbatim>\<open>g.id\<close>. The graph class itself is not part
  of \<^verbatim>\<open>solve_mcf.cc\<close>.
\<close>

type_synonym node = nat
type_synonym arc = nat

text \<open>Modelled from the spec: the Graph Store (section 4.1), whose code is missing: an
  append-only directed multigraph, node and arc ids dense, 0-based, assigned in insertion
  order; an arc's id is its position in the arc list.\<close>
record graph =
  nodeNum :: nat
  arcList :: "(node \<times> node) list"

text \<open>Modelled from the spec: the store's construction, missing with it: the empty store,
  \<open>addNode\<close> and \<open>addArc\<close>, which hand out ids in insertion order (section 4.1).\<close>
definition emptyGraph :: graph where
  "emptyGraph = \<lparr>nodeNum = 0, arcList = []\<rparr>"

text \<open>Modelled from the spec: \<open>addNode\<close> (section 4.1): the new node gets the next id.\<close>
definition addNode :: "graph \<Rightarrow> graph \<times> node" where
  "addNode gr = (gr\<lparr>nodeNum := Suc (nodeNum gr)\<rparr>, nodeNum gr)"

text \<open>Modelled from the spec: \<open>addArc\<close> (section 4.1): the new arc gets the next id.\<close>
definition addArc :: "graph \<Rightarrow> node \<Rightarrow> node \<Rightarrow> graph \<times> arc" where
  "addArc gr u v = (gr\<lparr>arcList := arcList gr @ [(u, v)]\<rparr>, length (arcList gr))"

text \<open>Modelled from the spec: the store's lookups, missing with it: node and arc counts and
  an arc's source and target (section 4.1).\<close>
definition countNodes :: "graph \<Rightarrow> nat" where
  "countNodes gr = nodeNum gr"

definition countArcs :: "graph \<Rightarrow> nat" where
  "countArcs gr = length (arcList gr)"

definition source :: "graph \<Rightarrow> arc \<Rightarrow> node" where
  "source gr a = fst (arcList gr ! a)"

definition target :: "graph \<Rightarrow> arc \<Rightarrow> node" where
  "target gr a = snd (arcList gr ! a)"

text \<open>Modelled from the spec: iteration over nodes and over arcs, missing with the Graph
  Store: in insertion order (section 4.1).\<close>
definition NodeIt :: "graph \<Rightarrow> node list" where
  "NodeIt gr = [0..<nodeNum gr]"

definition ArcIt :: "graph \<Rightarrow> arc list" where
  "ArcIt gr = [0..<length (arcList gr)]"

text \<open>Modelled from the spec: \<^verbatim>\<open>g.id(n)\<close>, missing with the store: the store's own integer id
  of a node, dense and 0-based (section 3).\<close>
definition node_id :: "graph \<Rightarrow> node \<Rightarrow> nat" where
  "node_id gr n = n"

section \<open>Instance Reader\<close>

datatype error = UsageError | IOError | FormatError nat | ConfigError | InfeasibleError

text \<open>
  The lines of an input file, already split into fields. \<open>Problem n m\<close> is the problem
  declaration, \<open>NodeLine i s\<close> a node record (1-based id, supply), \<open>ArcLine u v lo up c\<close>
  an arc record (1-based source and target, lower, upper, cost); \<open>Malformed\<close> stands for a
  line that is none of those.
\<close>
datatype line =
    Comment
  | Blank
  | Problem nat nat
  | NodeLine int int
  | ArcLine int int int int real
  | Malformed

text \<open>
  The source declares the cost map as \<^verbatim>\<open>SmartDigraph::ArcMap<float> cost(g)\<close>: what it holds
  of a cost is a single-precision float. \<open>to_float\<close> is the float a real number is stored
  as: the nearest one, a tie going to the even mantissa; 24 bits of mantissa, exponents
  from -126 to 127, below that the fixed quantum of the subnormal numbers. Beyond the
  largest float the source's float is infinite, which a real number cannot be: there the
  largest float stands for it.

  \<open>pow2_up k a p\<close> and \<open>pow2_down k a p\<close> look for the power of two that \<open>a\<close> starts with: from
  \<open>p\<close>, a power of two, at most \<open>k\<close> doublings or halvings.
\<close>
fun pow2_up :: "nat \<Rightarrow> real \<Rightarrow> real \<Rightarrow> real" where
  "pow2_up 0 a p = p"
| "pow2_up (Suc k) a p = (if a < 2 * p then p else pow2_up k a (2 * p))"

fun pow2_down :: "nat \<Rightarrow> real \<Rightarrow> real \<Rightarrow> real" where
  "pow2_down 0 a p = p"
| "pow2_down (Suc k) a p = (if p \<le> a then p else pow2_down k a (p / 2))"

text \<open>The smallest positive normal float, \<open>1 / 2 ^ 126\<close>.\<close>
definition float_min_normal :: real where
  "float_min_normal = 1 / 85070591730234615865843651857942052864"

text \<open>The distance between two neighbouring floats around \<open>a \<ge> 0\<close>: 2 to the exponent of
  \<open>a\<close> (from 127 down to -126, the exponent of the subnormal numbers), divided by 2 to the
  23.\<close>
definition float_ulp :: "real \<Rightarrow> real" where
  "float_ulp a =
     (if 1 \<le> a then pow2_up 127 a 1
      else if a < float_min_normal then float_min_normal
      else pow2_down 125 a (1 / 2)) / 8388608"

definition round_even :: "real \<Rightarrow> int" where
  "round_even y =
     (let f = \<lfloor>y\<rfloor>; d = y - of_int f
      in if d < 1 / 2 then f else if 1 / 2 < d then f + 1 else if even f then f else f + 1)"

text \<open>The largest float, \<open>(2 - 2 powi (- 23)) * 2 ^ 127\<close>.\<close>
definition float_max :: real where
  "float_max = 340282346638528859811704183484516925440"

definition to_float :: "real \<Rightarrow> real" where
  "to_float x =
     (let a = \<bar>x\<bar>;
          q = float_ulp a;
          m = min float_max (q * of_int (round_even (a / q)))
      in if x < 0 then - m else m)"

text \<open>What \<^verbatim>\<open>readDimacsMin(f, g, lower, capacity, cost, supply)\<close> fills in: the graph and the
  four maps the source declares. The values of \<open>cost\<close> are floats (see \<open>read_line\<close>).\<close>
record mcf_instance =
  graph_of :: graph
  lower :: "arc \<Rightarrow> int"
  capacity :: "arc \<Rightarrow> int"
  cost :: "arc \<Rightarrow> real"
  supply_of :: "node \<Rightarrow> int"

text \<open>Modelled from the spec: the state of the Reader, whose code is missing: whether the
  problem declaration has been read, the file ids of the node records read, and the
  instance built so far (section 4.2).\<close>
record reader =
  declared :: bool
  seen :: "int list"
  inst :: mcf_instance

text \<open>Modelled from the spec: the Reader before its first line: nothing declared, the
  store empty, every map zero (a node without a node record has supply 0).\<close>
definition reader0 :: reader where
  "reader0 = \<lparr>declared = False, seen = [],
     inst = \<lparr>graph_of = emptyGraph, lower = (\<lambda>_. 0), capacity = (\<lambda>_. 0),
             cost = (\<lambda>_. 0), supply_of = (\<lambda>_. 0)\<rparr>\<rparr>"

text \<open>Modelled from the spec: the range of the node ids of the file, 1 to the declared node
  count (section 4.2).\<close>
definition in_range :: "reader \<Rightarrow> int \<Rightarrow> bool" where
  "in_range r i = (1 \<le> i \<and> i \<le> int (nodeNum (graph_of (inst r))))"

text \<open>Modelled from the spec: the Instance Reader (section 4.2), whose code is missing.
  One line, numbered \<open>k\<close>: comment and blank lines are ignored; a malformed line, a node
  reference out of range and a second record for one node are rejected with
  \<open>FormatError k\<close>; so are a record before the problem declaration and a second
  declaration. File ids are 1-based, the store's are 0-based. The cost of an arc record
  goes into the float map of the source, so it is stored as a float.\<close>
fun read_line :: "nat \<Rightarrow> line \<Rightarrow> reader \<Rightarrow> error + reader" where
  "read_line k Comment r = Inr r"
| "read_line k Blank r = Inr r"
| "read_line k Malformed r = Inl (FormatError k)"
| "read_line k (Problem n m) r =
     (if declared r then Inl (FormatError k)
      else Inr (r\<lparr>declared := True,
                  inst := (inst r)\<lparr>graph_of := ((\<lambda>gr. fst (addNode gr)) ^^ n) (graph_of (inst r))\<rparr>\<rparr>))"
| "read_line k (NodeLine i s) r =
     (if \<not> declared r \<or> \<not> in_range r i \<or> i \<in> set (seen r) then Inl (FormatError k)
      else Inr (r\<lparr>seen := i # seen r,
                  inst := (inst r)\<lparr>supply_of := (supply_of (inst r))(nat (i - 1) := s)\<rparr>\<rparr>))"
| "read_line k (ArcLine u v lo up c) r =
     (if \<not> declared r \<or> \<not> in_range r u \<or> \<not> in_range r v then Inl (FormatError k)
      else (let (gr, a) = addArc (graph_of (inst r)) (nat (u - 1)) (nat (v - 1))
            in Inr (r\<lparr>inst := (inst r)\<lparr>graph_of := gr,
                                         lower := (lower (inst r))(a := lo),
                                         capacity := (capacity (inst r))(a := up),
                                         cost := (cost (inst r))(a := to_float c)\<rparr>\<rparr>)))"

text \<open>Modelled from the spec: the Reader's loop over the lines, missing with it: it stops
  at the first line rejected.\<close>
fun read_lines :: "nat \<Rightarrow> line list \<Rightarrow> reader \<Rightarrow> error + reader" where
  "read_lines k [] r = (if declared r then Inr r else Inl (FormatError k))"
| "read_lines k (l # ls) r =
     (case read_line k l r of Inl e \<Rightarrow> Inl e | Inr r' \<Rightarrow> read_lines (Suc k) ls r')"

text \<open>Modelled from the spec: \<^verbatim>\<open>readDimacsMin\<close>, missing with the Reader. Lines are numbered
  from 1; an input with no problem declaration is rejected at the line after its last.\<close>
definition readDimacsMin :: "line list \<Rightarrow> error + mcf_instance" where
  "readDimacsMin ls = (case read_lines 1 ls reader0 of Inl e \<Rightarrow> Inl e | Inr r \<Rightarrow> Inr (inst r))"

section \<open>MCF Engine\<close>

text \<open>
  The source creates the solver object from the graph alone, hands it three maps through
  its setters and calls \<^verbatim>\<open>run\<close>:
  \<^verbatim>\<open>CapacityScaling<SmartDigraph> algo(g);
  algo.upperMap(capacity).costMap(cost).supplyMap(supply);
  algo.run();\<close>
  and afterwards reads \<^verbatim>\<open>algo.totalCost()\<close> and \<^verbatim>\<open>algo.flow(e)\<close>. The solver object is a record
  of its maps and of the flow it holds.
\<close>

record solver =
  s_graph :: graph
  s_lower :: "arc \<Rightarrow> int"
  s_upper :: "arc \<Rightarrow> int"
  s_cost :: "arc \<Rightarrow> real"
  s_supply :: "node \<Rightarrow> int"
  s_flow :: "arc \<Rightarrow> int"

text \<open>Modelled from the spec: the solver object's constructor and setters, whose code is
  missing. A map no setter has given is constantly zero (for the lower bounds: the
  "implicit zero lower bounds" of section 4.3), and the object holds the zero flow until a
  run stores one.\<close>
definition CapacityScaling :: "graph \<Rightarrow> solver" where
  "CapacityScaling gr = \<lparr>s_graph = gr, s_lower = (\<lambda>_. 0), s_upper = (\<lambda>_. 0),
     s_cost = (\<lambda>_. 0), s_supply = (\<lambda>_. 0), s_flow = (\<lambda>_. 0)\<rparr>"

definition lowerMap :: "(arc \<Rightarrow> int) \<Rightarrow> solver \<Rightarrow> solver" where
  "lowerMap m algo = algo\<lparr>s_lower := m\<rparr>"

definition upperMap :: "(arc \<Rightarrow> int) \<Rightarrow> solver \<Rightarrow> solver" where
  "upperMap m algo = algo\<lparr>s_upper := m\<rparr>"

definition costMap :: "(arc \<Rightarrow> real) \<Rightarrow> solver \<Rightarrow> solver" where
  "costMap m algo = algo\<lparr>s_cost := m\<rparr>"

definition supplyMap :: "(node \<Rightarrow> int) \<Rightarrow> solver \<Rightarrow> solver" where
  "supplyMap m algo = algo\<lparr>s_supply := m\<rparr>"

text \<open>Modelled from the spec: \<^verbatim>\<open>algo.flow(e)\<close>, missing with the solver: the flow the object
  holds on an arc.\<close>
definition flow :: "solver \<Rightarrow> arc \<Rightarrow> int" where
  "flow algo e = s_flow algo e"

text \<open>Modelled from the spec: \<^verbatim>\<open>totalCost\<close>, missing with the solver: the sum of cost times flow
  over the arcs (section 4.3), taken exactly; the costs are those the cost map holds.\<close>
definition totalCost :: "solver \<Rightarrow> real" where
  "totalCost algo =
     sum_list (map (\<lambda>a. s_cost algo a * real_of_int (s_flow algo a)) (ArcIt (s_graph algo)))"

subsection \<open>Residual network\<close>

text \<open>Modelled from the spec: the residual network of the engine, whose code is missing
  (section 4.3 and the glossary): every arc gives a forward residual arc, with what is
  left of its upper bound, and a backward one, with what can be taken back of its flow;
  the reduced cost of a residual arc is its cost plus the potential of its source minus
  the potential of its target.\<close>
datatype dir = Fwd | Bwd

type_synonym rarc = "arc \<times> dir"

text \<open>The working state of one run: flow, per-node excess (positive) or deficit
  (negative), node potentials.\<close>
record estate =
  e_flow :: "arc \<Rightarrow> int"
  e_excess :: "node \<Rightarrow> int"
  e_pot :: "node \<Rightarrow> real"

fun rsrc :: "graph \<Rightarrow> rarc \<Rightarrow> node" where
  "rsrc gr (a, Fwd) = source gr a"
| "rsrc gr (a, Bwd) = target gr a"

fun rtgt :: "graph \<Rightarrow> rarc \<Rightarrow> node" where
  "rtgt gr (a, Fwd) = target gr a"
| "rtgt gr (a, Bwd) = source gr a"

fun rescap :: "solver \<Rightarrow> estate \<Rightarrow> rarc \<Rightarrow> int" where
  "rescap P st (a, Fwd) = s_upper P a - e_flow st a"
| "rescap P st (a, Bwd) = e_flow st a - s_lower P a"

fun rcost :: "solver \<Rightarrow> rarc \<Rightarrow> real" where
  "rcost P (a, Fwd) = s_cost P a"
| "rcost P (a, Bwd) = - s_cost P a"

definition redcost :: "solver \<Rightarrow> estate \<Rightarrow> rarc \<Rightarrow> real" where
  "redcost P st r =
     rcost P r + e_pot st (rsrc (s_graph P) r) - e_pot st (rtgt (s_graph P) r)"

definition rarcs :: "graph \<Rightarrow> rarc list" where
  "rarcs gr = concat (map (\<lambda>a. [(a, Fwd), (a, Bwd)]) (ArcIt gr))"

subsection \<open>Step 1: lower-bound elimination\<close>

text \<open>Modelled from the spec: step 1 of section 4.3, missing with the engine: every arc
  carries its lower bound from the start; the supply of its target grows and that of its
  source shrinks by as much.\<close>
definition eliminate_arc :: "solver \<Rightarrow> estate \<Rightarrow> arc \<Rightarrow> estate" where
  "eliminate_arc P st a =
     (let l = s_lower P a;
          u = source (s_graph P) a;
          v = target (s_graph P) a;
          ex1 = (e_excess st)(v := e_excess st v + l);
          ex2 = ex1(u := ex1 u - l)
      in st\<lparr>e_flow := (e_flow st)(a := l), e_excess := ex2\<rparr>)"

text \<open>Modelled from the spec: step 1 over all arcs, starting from the zero flow and the
  declared supplies.\<close>
definition eliminate_lower :: "solver \<Rightarrow> estate" where
  "eliminate_lower P =
     foldl (eliminate_arc P)
       \<lparr>e_flow = (\<lambda>_. 0), e_excess = s_supply P, e_pot = (\<lambda>_. 0)\<rparr>
       (ArcIt (s_graph P))"

subsection \<open>Step 2: potential initialization\<close>

text \<open>Modelled from the spec: one relaxation of the pre-pass of step 2, missing with the
  engine.\<close>
definition bf_relax :: "solver \<Rightarrow> estate \<Rightarrow> (node \<Rightarrow> real) \<Rightarrow> rarc \<Rightarrow> (node \<Rightarrow> real)" where
  "bf_relax P st d r =
     (let u = rsrc (s_graph P) r; v = rtgt (s_graph P) r
      in if 1 \<le> rescap P st r \<and> d u + rcost P r < d v then d(v := d u + rcost P r) else d)"

text \<open>Modelled from the spec: the Bellman-Ford-style pre-pass of section 4.3, step 2: the
  single source is an implicit root at distance 0 from every node; one round relaxes every
  residual arc that has capacity left, and there is one round per node.\<close>
definition bellman_ford :: "solver \<Rightarrow> estate \<Rightarrow> (node \<Rightarrow> real)" where
  "bellman_ford P st =
     ((\<lambda>d. foldl (bf_relax P st) d (rarcs (s_graph P))) ^^ nodeNum (s_graph P)) (\<lambda>_. 0)"

text \<open>Modelled from the spec: step 2 of section 4.3, missing with the engine: the pre-pass
  runs if some arc has negative cost; otherwise all potentials are zero.\<close>
definition init_potentials :: "solver \<Rightarrow> estate \<Rightarrow> estate" where
  "init_potentials P st =
     (if list_ex (\<lambda>a. s_cost P a < 0) (ArcIt (s_graph P))
      then st\<lparr>e_pot := bellman_ford P st\<rparr>
      else st\<lparr>e_pot := (\<lambda>_. 0)\<rparr>)"

subsection \<open>Step 3: shortest augmenting paths\<close>

text \<open>Modelled from the spec: the state of one shortest-path search of step 3b, missing
  with the engine: tentative distance (None: not reached), the path found to each node,
  and the nodes already settled.\<close>
record search =
  sp_dist :: "node \<Rightarrow> real option"
  sp_path :: "node \<Rightarrow> rarc list"
  sp_done :: "node list"

text \<open>Modelled from the spec: the priority queue of step 3b, missing with the engine: of
  two nodes the nearer one, of two equally near the one met first.\<close>
definition closer :: "(node \<Rightarrow> real option) \<Rightarrow> (node \<times> real) option \<Rightarrow> node \<Rightarrow> (node \<times> real) option" where
  "closer d best v =
     (case d v of
        None \<Rightarrow> best
      | Some dv \<Rightarrow> (case best of
                     None \<Rightarrow> Some (v, dv)
                   | Some (b, db) \<Rightarrow> if dv < db then Some (v, dv) else best))"

text \<open>Modelled from the spec: the queue's minimum, missing with the engine: the unsettled
  node nearest to the source; among equals the first in node order (the tie-break policy
  of section 4.3).\<close>
definition pick_min :: "graph \<Rightarrow> search \<Rightarrow> (node \<times> real) option" where
  "pick_min gr sp =
     foldl (closer (sp_dist sp)) None (filter (\<lambda>v. v \<notin> set (sp_done sp)) (NodeIt gr))"

text \<open>Modelled from the spec: the relaxation of one residual arc out of the node \<open>u\<close> being
  settled, and the settling of the nearest node, missing with the engine.\<close>
definition relax :: "solver \<Rightarrow> estate \<Rightarrow> node \<Rightarrow> real \<Rightarrow> search \<Rightarrow> rarc \<Rightarrow> search" where
  "relax P st u du sp r =
     (let v = rtgt (s_graph P) r;
          nd = du + redcost P st r;
          sp' = sp\<lparr>sp_dist := (sp_dist sp)(v := Some nd),
                    sp_path := (sp_path sp)(v := sp_path sp u @ [r])\<rparr>
      in if v \<in> set (sp_done sp) then sp
         else (case sp_dist sp v of
                 None \<Rightarrow> sp'
               | Some dv \<Rightarrow> if nd < dv then sp' else sp))"

text \<open>Modelled from the spec: one round of the search: the nearest unsettled node is
  settled and the residual arcs out of it that have capacity at least \<open>\<Delta>\<close> are relaxed.\<close>
definition settle :: "solver \<Rightarrow> int \<Rightarrow> estate \<Rightarrow> search \<Rightarrow> search" where
  "settle P \<Delta> st sp =
     (case pick_min (s_graph P) sp of
        None \<Rightarrow> sp
      | Some (u, du) \<Rightarrow>
          foldl (relax P st u du) (sp\<lparr>sp_done := u # sp_done sp\<rparr>)
            (filter (\<lambda>r. rsrc (s_graph P) r = u \<and> \<Delta> \<le> rescap P st r) (rarcs (s_graph P))))"

text \<open>Modelled from the spec: the shortest-path search of section 4.3, step 3b, over the
  residual arcs of capacity at least \<open>\<Delta>\<close>, by reduced cost; each round settles the nearest
  unsettled node, and there is one round per node.\<close>
definition dijkstra :: "solver \<Rightarrow> int \<Rightarrow> estate \<Rightarrow> node \<Rightarrow> search" where
  "dijkstra P \<Delta> st s =
     (settle P \<Delta> st ^^ nodeNum (s_graph P))
       \<lparr>sp_dist = (\<lambda>_. None)(s := Some 0), sp_path = (\<lambda>_. []), sp_done = []\<rparr>"

text \<open>Modelled from the spec: step 3b for one active node \<open>s\<close>, missing with the engine: the
  search from \<open>s\<close>, and the first node with deficit at least \<open>\<Delta>\<close> that it reaches.\<close>
definition try_source :: "solver \<Rightarrow> int \<Rightarrow> estate \<Rightarrow> node \<Rightarrow> (node \<times> node \<times> search) option" where
  "try_source P \<Delta> st s =
     (let sp = dijkstra P \<Delta> st s
      in case filter (\<lambda>t. e_excess st t \<le> - \<Delta> \<and> sp_dist sp t \<noteq> None) (NodeIt (s_graph P)) of
           [] \<Rightarrow> None
         | t # _ \<Rightarrow> Some (s, t, sp))"

fun first_some :: "('a \<Rightarrow> 'b option) \<Rightarrow> 'a list \<Rightarrow> 'b option" where
  "first_some f [] = None"
| "first_some f (x # xs) = (case f x of None \<Rightarrow> first_some f xs | Some y \<Rightarrow> Some y)"

text \<open>Modelled from the spec: steps 3a to 3c, missing with the engine: the first node with
  excess at least \<open>\<Delta>\<close> from which a node with deficit at least \<open>\<Delta>\<close> can be reached, and
  the first such node.\<close>
definition find_augmentation :: "solver \<Rightarrow> int \<Rightarrow> estate \<Rightarrow> (node \<times> node \<times> search) option" where
  "find_augmentation P \<Delta> st =
     first_some (try_source P \<Delta> st)
       (filter (\<lambda>s. \<Delta> \<le> e_excess st s) (NodeIt (s_graph P)))"

text \<open>Modelled from the spec: the push of \<open>\<Delta>\<close> over one residual arc (step 3d).\<close>
fun push :: "int \<Rightarrow> (arc \<Rightarrow> int) \<Rightarrow> rarc \<Rightarrow> (arc \<Rightarrow> int)" where
  "push \<Delta> f (a, Fwd) = f(a := f a + \<Delta>)"
| "push \<Delta> f (a, Bwd) = f(a := f a - \<Delta>)"

text \<open>Modelled from the spec: step 3d, missing with the engine: push \<open>\<Delta>\<close> along the path
  (forward arcs gain flow, backward arcs give it back), move \<open>\<Delta>\<close> of excess from the one
  end to the other, and add the distances found to the potentials of the nodes reached.\<close>
definition augment :: "int \<Rightarrow> node \<times> node \<times> search \<Rightarrow> estate \<Rightarrow> estate" where
  "augment \<Delta> x st =
     (case x of (s, t, sp) \<Rightarrow>
        (let ex1 = (e_excess st)(s := e_excess st s - \<Delta>);
             ex2 = ex1(t := ex1 t + \<Delta>)
         in \<lparr>e_flow = foldl (push \<Delta>) (e_flow st) (sp_path sp t),
             e_excess = ex2,
             e_pot = (\<lambda>v. case sp_dist sp v of None \<Rightarrow> e_pot st v | Some d \<Rightarrow> e_pot st v + d)\<rparr>))"

subsection \<open>Step 3: the scaling loop\<close>

text \<open>The excess still to be moved: the sum of the positive excesses.\<close>
definition pos_excess :: "graph \<Rightarrow> estate \<Rightarrow> nat" where
  "pos_excess gr st = nat (sum_list (map (\<lambda>n. max 0 (e_excess st n)) (NodeIt gr)))"

lemma sum_list_upt_upd:
  fixes G :: "nat \<Rightarrow> 'a \<Rightarrow> int"
  shows "s < n \<Longrightarrow>
    (\<Sum>i\<leftarrow>[0..<n]. G i ((h(s := v)) i)) = (\<Sum>i\<leftarrow>[0..<n]. G i (h i)) - G s (h s) + G s v"
proof (induction n)
  case 0
  then show ?case by simp
next
  case (Suc n)
  show ?case
  proof (cases "s = n")
    case True
    have "(\<Sum>i\<leftarrow>[0..<n]. G i ((h(s := v)) i)) = (\<Sum>i\<leftarrow>[0..<n]. G i (h i))"
      using True by (intro arg_cong[where f=sum_list] map_cong) auto
    then show ?thesis using True by simp
  next
    case False
    then have "s < n" using Suc.prems by simp
    from Suc.IH[OF this] False show ?thesis by simp
  qed
qed

lemma first_some_SomeD: "first_some f xs = Some y \<Longrightarrow> \<exists>x\<in>set xs. f x = Some y"
  by (induction xs) (auto split: option.splits)

lemma find_augmentation_SomeD:
  assumes "find_augmentation P \<Delta> st = Some (s, t, sp)"
  shows "s < nodeNum (s_graph P) \<and> t < nodeNum (s_graph P) \<and>
         \<Delta> \<le> e_excess st s \<and> e_excess st t \<le> - \<Delta> \<and>
         sp = dijkstra P \<Delta> st s \<and> sp_dist sp t \<noteq> None"
proof -
  from first_some_SomeD[OF assms[unfolded find_augmentation_def]]
  obtain x where x: "x \<in> set (filter (\<lambda>s. \<Delta> \<le> e_excess st s) (NodeIt (s_graph P)))"
    and tx: "try_source P \<Delta> st x = Some (s, t, sp)" by blast
  from tx obtain ts where
    ts: "filter (\<lambda>t. e_excess st t \<le> - \<Delta> \<and> sp_dist (dijkstra P \<Delta> st x) t \<noteq> None)
           (NodeIt (s_graph P)) = t # ts"
    and sx: "s = x" and sp: "sp = dijkstra P \<Delta> st x"
    by (auto simp: try_source_def Let_def split: list.splits)
  have "t \<in> set (filter (\<lambda>t. e_excess st t \<le> - \<Delta> \<and> sp_dist (dijkstra P \<Delta> st x) t \<noteq> None)
           (NodeIt (s_graph P)))"
    unfolding ts by simp
  with x sx sp show ?thesis by (auto simp: NodeIt_def)
qed

lemma pos_excess_augment:
  assumes "1 \<le> \<Delta>" "s < nodeNum gr" "t < nodeNum gr"
    "\<Delta> \<le> e_excess st s" "e_excess st t \<le> - \<Delta>"
  shows "pos_excess gr (augment \<Delta> (s, t, sp) st) < pos_excess gr st"
proof -
  let ?e = "e_excess st"
  let ?e1 = "?e(s := ?e s - \<Delta>)"
  let ?S = "\<lambda>e. (\<Sum>n\<leftarrow>[0..<nodeNum gr]. max 0 (e n))"
  have st: "s \<noteq> t" using assms by auto
  have 1: "?S ?e1 = ?S ?e - max 0 (?e s) + max 0 (?e s - \<Delta>)"
    using sum_list_upt_upd[OF assms(2), of "\<lambda>_. max 0" ?e] by simp
  have 2: "?S (?e1(t := ?e1 t + \<Delta>)) = ?S ?e1 - max 0 (?e1 t) + max 0 (?e1 t + \<Delta>)"
    using sum_list_upt_upd[OF assms(3), of "\<lambda>_. max 0" ?e1] by simp
  have 3: "?S (?e1(t := ?e1 t + \<Delta>)) = ?S ?e - \<Delta>"
    unfolding 2 1 using assms st by simp
  have 4: "e_excess (augment \<Delta> (s, t, sp) st) = ?e1(t := ?e1 t + \<Delta>)"
    by (simp add: augment_def Let_def)
  have "0 \<le> ?S (?e1(t := ?e1 t + \<Delta>))" by (rule sum_list_nonneg) auto
  then show ?thesis
    unfolding pos_excess_def NodeIt_def 4 3 using assms(1) by simp
qed

text \<open>Modelled from the spec: one scaling phase at threshold \<open>\<Delta>\<close> (step 3), missing with the
  engine: augment while an augmentation is found. Each augmentation moves \<open>\<Delta> \<ge> 1\<close> units
  of excess, so the loop ends.\<close>
function phase :: "solver \<Rightarrow> int \<Rightarrow> estate \<Rightarrow> estate" where
  "phase P \<Delta> st =
     (if \<Delta> < 1 then st
      else (case find_augmentation P \<Delta> st of
              None \<Rightarrow> st
            | Some x \<Rightarrow> phase P \<Delta> (augment \<Delta> x st)))"
  by pat_completeness auto
termination
proof (relation "measure (\<lambda>(P, \<Delta>, st). pos_excess (s_graph P) st)")
  show "wf (measure (\<lambda>(P, \<Delta>, st). pos_excess (s_graph P) st))" by simp
next
  fix P \<Delta> st x
  assume d: "\<not> \<Delta> < 1" and f: "find_augmentation P \<Delta> st = Some x"
  obtain s t sp where x: "x = (s, t, sp)" by (cases x) auto
  from find_augmentation_SomeD[OF f[unfolded x]] d
  have "pos_excess (s_graph P) (augment \<Delta> (s, t, sp) st) < pos_excess (s_graph P) st"
    by (intro pos_excess_augment) auto
  then show "((P, \<Delta>, augment \<Delta> x st), (P, \<Delta>, st))
      \<in> measure (\<lambda>(P, \<Delta>, st). pos_excess (s_graph P) st)"
    by (simp add: x)
qed

text \<open>Modelled from the spec: the scaling loop of step 3, missing with the engine: while
  \<open>\<Delta> \<ge> 1\<close>, run the phase, then halve \<open>\<Delta>\<close>.\<close>
function scaling :: "solver \<Rightarrow> int \<Rightarrow> estate \<Rightarrow> estate" where
  "scaling P \<Delta> st = (if \<Delta> < 1 then st else scaling P (\<Delta> div 2) (phase P \<Delta> st))"
  by pat_completeness auto
termination
  by (relation "measure (\<lambda>(P, \<Delta>, st). nat \<Delta>)") auto

text \<open>Modelled from the spec: the first threshold of step 3, missing with the engine: the
  largest power of two not exceeding the largest absolute excess (0 when that is 0).\<close>
fun pow2_below :: "nat \<Rightarrow> nat" where
  "pow2_below n = (if n < 2 then n else 2 * pow2_below (n div 2))"

declare phase.simps [simp del] scaling.simps [simp del] pow2_below.simps [simp del]

text \<open>Modelled from the spec: the maximum absolute per-node excess (step 3).\<close>
definition max_excess :: "graph \<Rightarrow> estate \<Rightarrow> int" where
  "max_excess gr st = foldl max 0 (map (\<lambda>n. \<bar>e_excess st n\<bar>) (NodeIt gr))"

text \<open>Modelled from the spec: the check of the bounds, missing with the engine: \<open>lower \<le>
  upper\<close>, both at least 0 (sections 3 and 4.3).\<close>
definition valid_config :: "solver \<Rightarrow> bool" where
  "valid_config P =
     list_all (\<lambda>a. 0 \<le> s_lower P a \<and> s_lower P a \<le> s_upper P a) (ArcIt (s_graph P))"

text \<open>Modelled from the spec: the engine's \<^verbatim>\<open>run\<close> (section 4.3), whose code is missing. A
  bound violation is a ConfigError before the algorithm starts. After the scaling loop the
  flow is stored in the solver object when every node's excess is zero; otherwise the run
  fails with InfeasibleError and the partial flow is discarded.\<close>
definition run :: "solver \<Rightarrow> error + solver" where
  "run P =
     (if \<not> valid_config P then Inl ConfigError
      else (let st0 = init_potentials P (eliminate_lower P);
                \<Delta>0 = int (pow2_below (nat (max_excess (s_graph P) st0)));
                st = scaling P \<Delta>0 st0
            in if list_all (\<lambda>n. e_excess st n = 0) (NodeIt (s_graph P))
               then Inr (P\<lparr>s_flow := e_flow st\<rparr>)
               else Inl InfeasibleError))"

section \<open>The program\<close>

text \<open>Decimal output of \<^verbatim>\<open>operator<<\<close> for the integers the program prints.\<close>
fun show_nat :: "nat \<Rightarrow> string" where
  "show_nat n =
     (if n < 10 then [''0123456789'' ! n]
      else show_nat (n div 10) @ [''0123456789'' ! (n mod 10)])"

declare show_nat.simps [simp del]

definition show_int :: "int \<Rightarrow> string" where
  "show_int i = (if i < 0 then CHR ''-'' # show_nat (nat (- i)) else show_nat (nat i))"

text \<open>What the program writes to \<^verbatim>\<open>std::cerr\<close>: the usage message, the node and arc counts,
  the total cost.\<close>
datatype diag = Usage | Counts nat nat | TotalCost real

text \<open>How a run ends: \<^verbatim>\<open>main\<close> has no return statement and no call of \<^verbatim>\<open>exit\<close>, so a run that
  reaches its end exits with 0; an exception that leaves \<^verbatim>\<open>main\<close> terminates the program
  (there is no handler); a stream opened on a null path is undefined behaviour.\<close>
datatype ending = Exit int | Terminate error | Undefined

record outcome =
  diagnostics :: "diag list"
  out_file :: "(string \<times> string list) option"
  ending :: ending

text \<open>\<^verbatim>\<open>std::ifstream f(argv[1])\<close>: the source never tests the stream; one that failed to open
  reads as an empty input.\<close>
definition ifstream :: "(string \<Rightarrow> line list option) \<Rightarrow> string \<Rightarrow> line list" where
  "ifstream files path = (case files path of None \<Rightarrow> [] | Some ls \<Rightarrow> ls)"

text \<open>The loop at the end of \<^verbatim>\<open>main\<close>: one line for each arc whose flow is not 0.\<close>
definition flow_line :: "graph \<Rightarrow> solver \<Rightarrow> arc \<Rightarrow> string" where
  "flow_line gr algo e =
     show_nat (node_id gr (source gr e)) @ '' '' @ show_nat (node_id gr (target gr e)) @ '' '' @
     show_int (flow algo e)"

definition write_flow :: "graph \<Rightarrow> solver \<Rightarrow> string list" where
  "write_flow gr algo = map (flow_line gr algo) (filter (\<lambda>e. flow algo e \<noteq> 0) (ArcIt gr))"

text \<open>The solver object as \<^verbatim>\<open>main\<close> sets it up: \<^verbatim>\<open>upperMap\<close>, \<^verbatim>\<open>costMap\<close> and \<^verbatim>\<open>supplyMap\<close> are
  called, \<^verbatim>\<open>lowerMap\<close> is not.\<close>
definition configure :: "mcf_instance \<Rightarrow> solver" where
  "configure i =
     supplyMap (supply_of i) (costMap (cost i) (upperMap (capacity i)
       (CapacityScaling (graph_of i))))"

text \<open>\<^verbatim>\<open>algo.run();\<close>: the source calls the solver's \<^verbatim>\<open>run\<close> as a statement, so its verdict is
  dropped, and the statements after it use the object as the run left it. \<^verbatim>\<open>run\<close> works on
  the object in place: after a run that found a flow the object holds it; what the object
  holds after a run that failed, neither the source nor the spec says, so that is a
  parameter, \<open>left\<close>.\<close>
definition after_run ::
  "(solver \<Rightarrow> error + solver) \<Rightarrow> (solver \<Rightarrow> solver) \<Rightarrow> solver \<Rightarrow> solver" where
  "after_run solve left algo = (case solve algo of Inl _ \<Rightarrow> left algo | Inr algo1 \<Rightarrow> algo1)"

text \<open>
  \<^verbatim>\<open>main\<close>. \<open>solve\<close> is the solver's \<^verbatim>\<open>run\<close> and \<open>left\<close> what a failed run leaves in the solver
  object, \<open>files\<close> gives the readable files, \<open>writable\<close> the paths an output stream can
  open. The usage check prints its message and goes on. With
  no input path \<^verbatim>\<open>argv[1]\<close> is null, with no output path \<^verbatim>\<open>argv[2]\<close> is: the run is undefined
  from the stream opened on it. The reader rejects its input by an exception, which
  nothing catches. An output stream that failed to open drops what is written to it.
\<close>
definition main ::
  "(solver \<Rightarrow> error + solver) \<Rightarrow> (solver \<Rightarrow> solver) \<Rightarrow> string list \<Rightarrow>
   (string \<Rightarrow> line list option) \<Rightarrow> (string \<Rightarrow> bool) \<Rightarrow> outcome" where
  "main solve left argv files writable =
     (let err0 = (if length argv < 3 then [Usage] else [])
      in if length argv < 2
         then \<lparr>diagnostics = err0, out_file = None, ending = Undefined\<rparr>
         else (case readDimacsMin (ifstream files (argv ! 1)) of
                 Inl e \<Rightarrow> \<lparr>diagnostics = err0, out_file = None, ending = Terminate e\<rparr>
               | Inr i \<Rightarrow>
                   (let gr = graph_of i;
                        err1 = err0 @ [Counts (countNodes gr) (countArcs gr)];
                        algo = configure i;
                        algo' = after_run solve left algo;
                        err2 = err1 @ [TotalCost (totalCost algo')]
                    in if length argv < 3
                       then \<lparr>diagnostics = err2, out_file = None, ending = Undefined\<rparr>
                       else \<lparr>diagnostics = err2,
                             out_file = (if writable (argv ! 2)
                                       then Some (argv ! 2, write_flow gr algo') else None),
                             ending = Exit 0\<rparr>)))"

section \<open>Properties stated over input files\<close>

text \<open>Two input lines that differ at most in the lower-bound field of an arc record.\<close>
fun same_but_lower :: "line \<Rightarrow> line \<Rightarrow> bool" where
  "same_but_lower (ArcLine u v lo up c) l' =
     (case l' of ArcLine u' v' lo' up' c' \<Rightarrow> u' = u \<and> v' = v \<and> up' = up \<and> c' = c | _ \<Rightarrow> False)"
| "same_but_lower l l' = (l' = l)"

text \<open>Two reader states that agree on everything but the lower map.\<close>
definition lower_blind :: "reader \<Rightarrow> reader \<Rightarrow> bool" where
  "lower_blind r r' =
     (declared r = declared r' \<and> seen r = seen r' \<and>
      graph_of (inst r) = graph_of (inst r') \<and> capacity (inst r) = capacity (inst r') \<and>
      cost (inst r) = cost (inst r') \<and> supply_of (inst r) = supply_of (inst r'))"

text \<open>The endpoints of the arc records of an input, in file order, as the file writes them.\<close>
fun arc_lines :: "line list \<Rightarrow> (int \<times> int) list" where
  "arc_lines [] = []"
| "arc_lines (ArcLine u v lo up c # ls) = (u, v) # arc_lines ls"
| "arc_lines (l # ls) = arc_lines ls"


text \<open>The total cost a run reports on the diagnostic stream.\<close>
fun reported_cost :: "diag list \<Rightarrow> real list" where
  "reported_cost [] = []"
| "reported_cost (TotalCost c # ds) = c # reported_cost ds"
| "reported_cost (d # ds) = reported_cost ds"


text \<open>Net flow out of a node: flow on its outgoing arcs minus flow on its incoming arcs.\<close>
definition net_out :: "graph \<Rightarrow> (arc \<Rightarrow> int) \<Rightarrow> node \<Rightarrow> int" where
  "net_out gr f n =
     sum_list (map (\<lambda>a. if source gr a = n then f a else 0) (ArcIt gr)) -
     sum_list (map (\<lambda>a. if target gr a = n then f a else 0) (ArcIt gr))"

text \<open>The error of a run on an input, if any: the reader's, or else the solver's on the
  solver object as \<^verbatim>\<open>main\<close> sets it up.\<close>
definition verdict :: "(solver \<Rightarrow> error + solver) \<Rightarrow> line list \<Rightarrow> error option" where
  "verdict solve ls =
     (case readDimacsMin ls of
        Inl e \<Rightarrow> Some e
      | Inr i \<Rightarrow> (case solve (configure i) of Inl e \<Rightarrow> Some e | Inr _ \<Rightarrow> None))"

text \<open>A flow that meets conservation within 0 and the upper bounds of an instance.\<close>
definition fits :: "mcf_instance \<Rightarrow> (arc \<Rightarrow> int) \<Rightarrow> bool" where
  "fits i f =
     (list_all (\<lambda>a. 0 \<le> f a \<and> f a \<le> capacity i a) (ArcIt (graph_of i)) \<and>
      list_all (\<lambda>n. net_out (graph_of i) f n = supply_of i n) (NodeIt (graph_of i)))"

section \<open>Invariants\<close>

text \<open>Every arc joins two nodes of the graph.\<close>
definition wf_graph :: "graph \<Rightarrow> bool" where
  "wf_graph gr = list_all (\<lambda>e. fst e < nodeNum gr \<and> snd e < nodeNum gr) (arcList gr)"

text \<open>A list of residual arcs of the graph that leads from \<open>s\<close> to \<open>t\<close>.\<close>
fun is_path :: "graph \<Rightarrow> node \<Rightarrow> rarc list \<Rightarrow> node \<Rightarrow> bool" where
  "is_path gr s [] t = (s = t)"
| "is_path gr s (r # rs) t =
     (fst r < length (arcList gr) \<and> rsrc gr r = s \<and> is_path gr (rtgt gr r) rs t)"

text \<open>What a node still has to emit is its supply less what the flow already carries away
  from it.\<close>
definition conserved :: "solver \<Rightarrow> estate \<Rightarrow> bool" where
  "conserved P st =
     (\<forall>n. e_excess st n + net_out (s_graph P) (e_flow st) n = s_supply P n)"

definition within_bounds :: "solver \<Rightarrow> (arc \<Rightarrow> int) \<Rightarrow> bool" where
  "within_bounds P f =
     list_all (\<lambda>a. s_lower P a \<le> f a \<and> f a \<le> s_upper P a) (ArcIt (s_graph P))"

text \<open>Every path a search has found leads from the source to its node.\<close>
definition paths_ok :: "graph \<Rightarrow> node \<Rightarrow> search \<Rightarrow> bool" where
  "paths_ok gr s sp = (\<forall>v. sp_dist sp v \<noteq> None \<longrightarrow> is_path gr s (sp_path sp v) v)"

text \<open>Every path a search has found uses arcs of residual capacity at least \<open>\<Delta>\<close>, no arc
  twice, and only arcs between settled nodes and its own end.\<close>
definition paths_simple :: "solver \<Rightarrow> int \<Rightarrow> estate \<Rightarrow> search \<Rightarrow> bool" where
  "paths_simple P \<Delta> st sp =
     (\<forall>w. sp_dist sp w \<noteq> None \<longrightarrow>
        distinct (map fst (sp_path sp w)) \<and>
        (\<forall>r\<in>set (sp_path sp w).
           \<Delta> \<le> rescap P st r \<and>
           source (s_graph P) (fst r) \<in> insert w (set (sp_done sp)) \<and>
           target (s_graph P) (fst r) \<in> insert w (set (sp_done sp))))"

section \<open>Example runs\<close>

definition argv3 :: "string list" where
  "argv3 = [''solve_mcf'', ''in.min'', ''out.txt'']"

definition argv2 :: "string list" where
  "argv2 = [''solve_mcf'', ''in.min'']"

definition input_file :: "line list \<Rightarrow> string \<Rightarrow> line list option" where
  "input_file ls p = (if p = ''in.min'' then Some ls else None)"

definition any_path :: "string \<Rightarrow> bool" where
  "any_path p = True"


text \<open>One thing a failed run may leave: the solver object as it was before the run.\<close>
definition as_before :: "solver \<Rightarrow> solver" where
  "as_before algo = algo"

text \<open>Scenario 1 of the spec as an input file: supply 5 at the first node, demand 5 at the
  second, one arc between them with bounds 0 and 10 and cost 2.\<close>
definition scenario1 :: "line list" where
  "scenario1 = [Problem 2 1, NodeLine 1 5, NodeLine 2 (- 5), ArcLine 1 2 0 10 2]"

text \<open>Scenario 2: the same with upper bound 3.\<close>
definition scenario2 :: "line list" where
  "scenario2 = [Problem 2 1, NodeLine 1 5, NodeLine 2 (- 5), ArcLine 1 2 0 3 2]"

text \<open>Scenario 3: the triangle, every arc with bounds 0 and 10.\<close>
definition scenario3 :: "line list" where
  "scenario3 = [Comment, Problem 3 3, NodeLine 1 4, NodeLine 3 (- 4),
     ArcLine 1 3 0 10 5, ArcLine 1 2 0 10 1, ArcLine 2 3 0 10 1]"

text \<open>The triangle with upper bounds \<open>u0\<close> on the direct arc and \<open>u1\<close>, \<open>u2\<close> on the arcs of
  the two-hop path, as an input file.\<close>
definition triangle :: "int \<Rightarrow> int \<Rightarrow> int \<Rightarrow> line list" where
  "triangle u0 u1 u2 = [Problem 3 3, NodeLine 1 4, NodeLine 3 (- 4),
     ArcLine 1 3 0 u0 5, ArcLine 1 2 0 u1 1, ArcLine 2 3 0 u2 1]"

text \<open>The instance the reader builds from that file.\<close>
definition tri :: "int \<Rightarrow> int \<Rightarrow> int \<Rightarrow> mcf_instance" where
  "tri u0 u1 u2 = \<lparr>graph_of = \<lparr>nodeNum = 3, arcList = [(0, 2), (0, 1), (1, 2)]\<rparr>,
      lower = (\<lambda>_. 0)(0 := 0, 1 := 0, 2 := 0),
      capacity = (\<lambda>_. 0)(0 := u0, 1 := u1, 2 := u2),
      cost = (\<lambda>_. 0)(0 := 5, 1 := 1, 2 := 1),
      supply_of = (\<lambda>_. 0)(0 := 4, 2 := - 4)\<rparr>"

text \<open>The engine's state on it after steps 1 and 2.\<close>
definition tri_start :: estate where
  "tri_start = \<lparr>e_flow = (\<lambda>_. 0), e_excess = (\<lambda>_. 0)(0 := 4, 2 := - 4), e_pot = (\<lambda>_. 0)\<rparr>"

text \<open>A circulation: no supplies, two arcs there and back with upper bound 2 and cost 1;
  the first arc has lower bound \<open>lo\<close>.\<close>
definition circulation :: "int \<Rightarrow> line list" where
  "circulation lo = [Problem 2 2, ArcLine 1 2 lo 2 1, ArcLine 2 1 0 2 1]"

text \<open>Supply 5 at the first node, demand 3 at the second, one arc between them with bounds
  0 and 10 and cost 2: the supplies sum to 2.\<close>
definition surplus :: "line list" where
  "surplus = [Problem 2 1, NodeLine 1 5, NodeLine 2 (- 3), ArcLine 1 2 0 10 2]"




text \<open>An arc with a negative upper bound.\<close>
definition negative_capacity :: "line list" where
  "negative_capacity = [Problem 2 1, ArcLine 1 2 0 (- 1) 1]"

section \<open>The reader\<close>

lemma read_line_blind:
  "lower_blind r r' \<Longrightarrow> same_but_lower l l' \<Longrightarrow>
   rel_sum (=) lower_blind (read_line k l r) (read_line k l' r')"
  by (cases l; cases l')
     (auto simp: lower_blind_def in_range_def addArc_def)

lemma read_lines_blind:
  "list_all2 same_but_lower ls ls' \<Longrightarrow> lower_blind r r' \<Longrightarrow>
   rel_sum (=) lower_blind (read_lines k ls r) (read_lines k ls' r')"
proof (induction arbitrary: k r r' rule: list_all2_induct)
  case Nil
  then show ?case by (auto simp: lower_blind_def)
next
  case (Cons l ls l' ls')
  from read_line_blind[OF Cons.prems Cons.hyps(1), of k]
  show ?case
    by (cases "read_line k l r"; cases "read_line k l' r'") (auto intro: Cons.IH)
qed

lemma readDimacsMin_blind:
  assumes "list_all2 same_but_lower ls ls'"
  shows "rel_sum (=) (\<lambda>i i'. configure i = configure i' \<and> graph_of i = graph_of i')
           (readDimacsMin ls) (readDimacsMin ls')"
proof -
  have "lower_blind reader0 reader0" by (simp add: lower_blind_def)
  from read_lines_blind[OF assms this, of 1] show ?thesis
    by (cases "read_lines 1 ls reader0"; cases "read_lines 1 ls' reader0")
       (auto simp: readDimacsMin_def lower_blind_def configure_def)
qed

lemma addNodes_nodeNum: "nodeNum (((\<lambda>gr. fst (addNode gr)) ^^ n) gr) = nodeNum gr + n"
  by (induction n) (auto simp: addNode_def)

lemma addNodes_arcList: "arcList (((\<lambda>gr. fst (addNode gr)) ^^ n) gr) = arcList gr"
  by (induction n) (auto simp: addNode_def)

lemma read_line_arcs:
  "read_line k l r = Inr r' \<Longrightarrow>
   arcList (graph_of (inst r')) =
     arcList (graph_of (inst r)) @ map (\<lambda>(u, v). (nat (u - 1), nat (v - 1))) (arc_lines [l])"
  by (cases l) (auto simp: addArc_def addNodes_arcList split: if_splits)

lemma arc_lines_Cons: "arc_lines (l # ls) = arc_lines [l] @ arc_lines ls"
  by (cases l) auto

lemma read_lines_arcs:
  "read_lines k ls r = Inr r' \<Longrightarrow>
   arcList (graph_of (inst r')) =
     arcList (graph_of (inst r)) @ map (\<lambda>(u, v). (nat (u - 1), nat (v - 1))) (arc_lines ls)"
proof (induction ls arbitrary: k r)
  case Nil
  then show ?case by (auto split: if_splits)
next
  case (Cons l ls)
  from Cons.prems obtain r1 where 1: "read_line k l r = Inr r1"
    and 2: "read_lines (Suc k) ls r1 = Inr r'"
    by (auto split: sum.splits)
  from Cons.IH[OF 2] read_line_arcs[OF 1] show ?case
    by (subst arc_lines_Cons) simp
qed

lemma readDimacsMin_arcs:
  "readDimacsMin ls = Inr i \<Longrightarrow>
   arcList (graph_of i) = map (\<lambda>(u, v). (nat (u - 1), nat (v - 1))) (arc_lines ls)"
  using read_lines_arcs[of 1 ls reader0]
  by (auto simp: readDimacsMin_def reader0_def emptyGraph_def split: sum.splits)





lemma read_line_wf:
  "read_line k l r = Inr r' \<Longrightarrow> wf_graph (graph_of (inst r)) \<Longrightarrow> wf_graph (graph_of (inst r'))"
  by (cases l)
     (fastforce simp: addArc_def wf_graph_def list_all_iff in_range_def
       addNodes_nodeNum addNodes_arcList split: if_splits intro: trans_less_add1)+

lemma read_lines_wf:
  "read_lines k ls r = Inr r' \<Longrightarrow> wf_graph (graph_of (inst r)) \<Longrightarrow> wf_graph (graph_of (inst r'))"
proof (induction ls arbitrary: k r)
  case Nil
  then show ?case by (auto split: if_splits)
next
  case (Cons l ls)
  from Cons.prems(1) obtain r1 where 1: "read_line k l r = Inr r1"
    and 2: "read_lines (Suc k) ls r1 = Inr r'"
    by (auto split: sum.splits)
  show ?case by (rule Cons.IH[OF 2 read_line_wf[OF 1 Cons.prems(2)]])
qed

lemma readDimacsMin_wf: "readDimacsMin ls = Inr i \<Longrightarrow> wf_graph (graph_of i)"
  using read_lines_wf[of 1 ls reader0]
  by (auto simp: readDimacsMin_def reader0_def emptyGraph_def wf_graph_def split: sum.splits)

section \<open>The engine: conservation\<close>


lemma net_out_upd:
  assumes "a < length (arcList gr)"
  shows "net_out gr (f(a := v)) n =
     net_out gr f n + (if source gr a = n then v - f a else 0)
                    - (if target gr a = n then v - f a else 0)"
proof -
  have 1: "(\<Sum>i\<leftarrow>[0..<length (arcList gr)]. if source gr i = n then (f(a := v)) i else 0) =
        (\<Sum>i\<leftarrow>[0..<length (arcList gr)]. if source gr i = n then f i else 0)
          - (if source gr a = n then f a else 0) + (if source gr a = n then v else 0)"
    by (rule sum_list_upt_upd[OF assms, of "\<lambda>i x. if source gr i = n then x else 0" f v])
  have 2: "(\<Sum>i\<leftarrow>[0..<length (arcList gr)]. if target gr i = n then (f(a := v)) i else 0) =
        (\<Sum>i\<leftarrow>[0..<length (arcList gr)]. if target gr i = n then f i else 0)
          - (if target gr a = n then f a else 0) + (if target gr a = n then v else 0)"
    by (rule sum_list_upt_upd[OF assms, of "\<lambda>i x. if target gr i = n then x else 0" f v])
  show ?thesis unfolding net_out_def ArcIt_def 1 2 by simp
qed

lemma push_net_out:
  assumes "fst r < length (arcList gr)"
  shows "net_out gr (push \<Delta> f r) n =
     net_out gr f n + (if rsrc gr r = n then \<Delta> else 0) - (if rtgt gr r = n then \<Delta> else 0)"
proof (cases r)
  case (Pair a d)
  with assms have a: "a < length (arcList gr)" by simp
  show ?thesis unfolding Pair by (cases d) (simp_all add: net_out_upd[OF a])
qed

lemma path_net_out:
  "is_path gr s p t \<Longrightarrow>
   net_out gr (foldl (push \<Delta>) f p) n =
     net_out gr f n + (if s = n then \<Delta> else 0) - (if t = n then \<Delta> else 0)"
proof (induction p arbitrary: f s)
  case Nil
  then show ?case by simp
next
  case (Cons r p)
  from Cons.prems have r: "fst r < length (arcList gr)" "rsrc gr r = s"
    and p: "is_path gr (rtgt gr r) p t" by simp_all
  show ?case
    using Cons.IH[OF p, of "push \<Delta> f r"] push_net_out[OF r(1), of \<Delta> f n] r(2) by simp
qed

lemma is_path_snoc:
  "is_path gr s p u \<Longrightarrow> fst r < length (arcList gr) \<Longrightarrow> rsrc gr r = u \<Longrightarrow>
   is_path gr s (p @ [r]) (rtgt gr r)"
  by (induction p arbitrary: s) auto

lemma rarcs_arc: "r \<in> set (rarcs gr) \<Longrightarrow> fst r < length (arcList gr)"
  by (auto simp: rarcs_def ArcIt_def)

lemma relax_paths_ok:
  assumes "paths_ok gr s sp" "sp_dist sp u \<noteq> None" "rsrc gr r = u" "r \<in> set (rarcs gr)"
    "gr = s_graph P" "u \<in> set (sp_done sp)"
  shows "paths_ok gr s (relax P st u du sp r) \<and> sp_dist (relax P st u du sp r) u \<noteq> None
     \<and> sp_done (relax P st u du sp r) = sp_done sp"
proof -
  have pu: "is_path gr s (sp_path sp u) u" using assms(1,2) by (auto simp: paths_ok_def)
  have new: "is_path gr s (sp_path sp u @ [r]) (rtgt gr r)"
    by (rule is_path_snoc[OF pu rarcs_arc[OF assms(4)] assms(3)])
  show ?thesis
    using assms new
    by (auto simp: relax_def Let_def paths_ok_def split: option.splits)
qed

lemma foldl_relax_paths_ok:
  assumes "gr = s_graph P" "set rs \<subseteq> set (rarcs gr)" "\<forall>r\<in>set rs. rsrc gr r = u"
  shows "paths_ok gr s sp \<Longrightarrow> sp_dist sp u \<noteq> None \<Longrightarrow> u \<in> set (sp_done sp) \<Longrightarrow>
         paths_ok gr s (foldl (relax P st u du) sp rs)"
  using assms(2,3)
proof (induction rs arbitrary: sp)
  case Nil
  then show ?case by simp
next
  case (Cons r rs)
  have "paths_ok gr s (relax P st u du sp r) \<and> sp_dist (relax P st u du sp r) u \<noteq> None
     \<and> sp_done (relax P st u du sp r) = sp_done sp"
    by (rule relax_paths_ok) (use Cons.prems assms(1) in auto)
  then show ?case using Cons.IH[of "relax P st u du sp r"] Cons.prems by simp
qed

lemma closer_dist:
  "(\<And>b db. best = Some (b, db) \<Longrightarrow> d b = Some db) \<Longrightarrow>
   closer d best v = Some (u, du) \<Longrightarrow> d u = Some du"
  by (auto simp: closer_def split: option.splits if_splits)

lemma foldl_closer_dist:
  "(\<And>b db. best = Some (b, db) \<Longrightarrow> d b = Some db) \<Longrightarrow>
   foldl (closer d) best vs = Some (u, du) \<Longrightarrow> d u = Some du"
proof (induction vs arbitrary: best)
  case Nil
  then show ?case by simp
next
  case (Cons v vs)
  show ?case
  proof (rule Cons.IH[of "closer d best v"])
    fix b db assume "closer d best v = Some (b, db)"
    then show "d b = Some db" using Cons.prems(1) by (rule closer_dist[rotated]) auto
  next
    show "foldl (closer d) (closer d best v) vs = Some (u, du)" using Cons.prems(2) by simp
  qed
qed

lemma pick_min_dist: "pick_min gr sp = Some (u, du) \<Longrightarrow> sp_dist sp u = Some du"
  unfolding pick_min_def by (rule foldl_closer_dist[rotated]) auto

lemma settle_paths_ok:
  assumes "paths_ok (s_graph P) s sp"
  shows "paths_ok (s_graph P) s (settle P \<Delta> st sp)"
proof (cases "pick_min (s_graph P) sp")
  case None
  then show ?thesis using assms by (simp add: settle_def)
next
  case (Some x)
  obtain u du where x: "x = (u, du)" by (cases x) auto
  have du: "sp_dist sp u = Some du" using Some x pick_min_dist by simp
  have "paths_ok (s_graph P) s (sp\<lparr>sp_done := u # sp_done sp\<rparr>)"
    using assms by (simp add: paths_ok_def)
  then have "paths_ok (s_graph P) s
     (foldl (relax P st u du) (sp\<lparr>sp_done := u # sp_done sp\<rparr>)
        (filter (\<lambda>r. rsrc (s_graph P) r = u \<and> \<Delta> \<le> rescap P st r) (rarcs (s_graph P))))"
    by (rule foldl_relax_paths_ok[OF refl, rotated 2]) (use du in auto)
  then show ?thesis using Some x by (simp add: settle_def)
qed

lemma dijkstra_paths_ok: "paths_ok (s_graph P) s (dijkstra P \<Delta> st s)"
proof -
  have "paths_ok (s_graph P) s ((settle P \<Delta> st ^^ k)
       \<lparr>sp_dist = (\<lambda>_. None)(s := Some 0), sp_path = (\<lambda>_. []), sp_done = []\<rparr>)" for k
    by (induction k) (auto simp: paths_ok_def[of _ _ "\<lparr>sp_dist = _, sp_path = _, sp_done = _\<rparr>"] intro: settle_paths_ok)
  then show ?thesis by (simp add: dijkstra_def)
qed

lemma augment_conserved:
  assumes "conserved P st" "find_augmentation P \<Delta> st = Some x"
  shows "conserved P (augment \<Delta> x st)"
proof -
  obtain s t sp where x: "x = (s, t, sp)" by (cases x) auto
  from find_augmentation_SomeD[OF assms(2)[unfolded x]]
  have sp: "sp = dijkstra P \<Delta> st s" and t: "sp_dist sp t \<noteq> None" by blast+
  have "is_path (s_graph P) s (sp_path sp t) t"
    using dijkstra_paths_ok[of P s \<Delta> st] t unfolding sp paths_ok_def by blast
  from path_net_out[OF this, of \<Delta> "e_flow st"] assms(1)
  show ?thesis
    unfolding conserved_def x by (auto simp: augment_def Let_def)
qed

lemma phase_conserved: "conserved P st \<Longrightarrow> conserved P (phase P \<Delta> st)"
proof (induction P \<Delta> st rule: phase.induct)
  case (1 P \<Delta> st)
  show ?case
  proof (cases "\<Delta> < 1")
    case True
    then show ?thesis using "1.prems" by (simp add: phase.simps)
  next
    case False
    show ?thesis
    proof (cases "find_augmentation P \<Delta> st")
      case None
      then show ?thesis using "1.prems" False by (simp add: phase.simps)
    next
      case (Some x)
      from "1.IH"[OF False Some augment_conserved[OF "1.prems" Some]]
      show ?thesis using False Some by (subst phase.simps) simp
    qed
  qed
qed

lemma scaling_conserved: "conserved P st \<Longrightarrow> conserved P (scaling P \<Delta> st)"
proof (induction P \<Delta> st rule: scaling.induct)
  case (1 P \<Delta> st)
  show ?case
  proof (cases "\<Delta> < 1")
    case True
    then show ?thesis using "1.prems" by (simp add: scaling.simps)
  next
    case False
    from "1.IH"[OF False phase_conserved[OF "1.prems"]]
    show ?thesis using False by (subst scaling.simps) simp
  qed
qed

lemma eliminate_prefix:
  "k \<le> length (arcList (s_graph P)) \<Longrightarrow>
   (let st = foldl (eliminate_arc P)
       \<lparr>e_flow = (\<lambda>_. 0), e_excess = s_supply P, e_pot = (\<lambda>_. 0)\<rparr> [0..<k]
    in conserved P st \<and> (\<forall>b\<ge>k. e_flow st b = 0))"
proof (induction k)
  case 0
  have "net_out (s_graph P) (\<lambda>_. 0) n = 0" for n
    by (simp add: net_out_def)
  then show ?case by (simp add: conserved_def)
next
  case (Suc k)
  let ?st = "foldl (eliminate_arc P)
       \<lparr>e_flow = (\<lambda>_. 0), e_excess = s_supply P, e_pot = (\<lambda>_. 0)\<rparr> [0..<k]"
  from Suc have c: "conserved P ?st" and z: "\<forall>b\<ge>k. e_flow ?st b = 0"
    by (simp_all add: Let_def)
  have k: "k < length (arcList (s_graph P))" using Suc.prems by simp
  have "conserved P (eliminate_arc P ?st k)"
    using c z unfolding conserved_def
    by (auto simp: eliminate_arc_def Let_def net_out_upd[OF k])
  moreover have "\<forall>b\<ge>Suc k. e_flow (eliminate_arc P ?st k) b = 0"
    using z by (auto simp: eliminate_arc_def Let_def)
  ultimately show ?case by (simp add: Let_def)
qed

lemma eliminate_lower_conserved: "conserved P (eliminate_lower P)"
  using eliminate_prefix[of "length (arcList (s_graph P))" P]
  by (simp add: eliminate_lower_def ArcIt_def Let_def)

lemma init_potentials_conserved: "conserved P st \<Longrightarrow> conserved P (init_potentials P st)"
  by (simp add: init_potentials_def conserved_def)

lemma run_conservation:
  assumes "run P = Inr P'" "n < nodeNum (s_graph P)"
  shows "net_out (s_graph P) (flow P') n = s_supply P n"
proof -
  let ?init = "init_potentials P (eliminate_lower P)"
  let ?st = "scaling P (int (pow2_below (nat (max_excess (s_graph P) ?init)))) ?init"
  from assms(1) have z: "list_all (\<lambda>n. e_excess ?st n = 0) (NodeIt (s_graph P))"
    and P': "P' = P\<lparr>s_flow := e_flow ?st\<rparr>"
    by (auto simp: run_def Let_def split: if_splits)
  have c: "conserved P ?st"
    by (intro scaling_conserved init_potentials_conserved eliminate_lower_conserved)
  from z assms(2) have e0: "e_excess ?st n = 0"
    by (simp add: list_all_iff NodeIt_def)
  have f: "flow P' = e_flow ?st" by (rule ext) (simp add: flow_def P')
  from c[unfolded conserved_def, rule_format, of n] e0 show ?thesis
    unfolding f by simp
qed


section \<open>The engine: bounds\<close>


lemma rarc_ends:
  "rsrc gr r \<in> {source gr (fst r), target gr (fst r)}"
  "rtgt gr r \<in> {source gr (fst r), target gr (fst r)}"
  "source gr (fst r) \<in> {rsrc gr r, rtgt gr r}"
  "target gr (fst r) \<in> {rsrc gr r, rtgt gr r}"
  by (cases r; cases "snd r"; simp)+

lemma relax_paths_simple:
  assumes inv: "paths_simple P \<Delta> st sp" and du: "sp_dist sp u \<noteq> None"
    and r: "rsrc (s_graph P) r = u" "\<Delta> \<le> rescap P st r" and u: "u \<in> set (sp_done sp)"
  shows "paths_simple P \<Delta> st (relax P st u du sp r)"
proof (cases "rtgt (s_graph P) r \<in> set (sp_done sp)")
  case True
  then show ?thesis using inv by (simp add: relax_def Let_def)
next
  case False
  let ?v = "rtgt (s_graph P) r"
  let ?D = "set (sp_done sp)"
  have iu: "insert u ?D = ?D" using u by auto
  from inv[unfolded paths_simple_def, rule_format, OF du]
  have pu: "distinct (map fst (sp_path sp u))"
    and pr: "\<And>r'. r' \<in> set (sp_path sp u) \<Longrightarrow> \<Delta> \<le> rescap P st r' \<and>
           source (s_graph P) (fst r') \<in> ?D \<and> target (s_graph P) (fst r') \<in> ?D"
    unfolding iu by blast+
  have fresh: "fst r \<notin> fst ` set (sp_path sp u)"
  proof
    assume "fst r \<in> fst ` set (sp_path sp u)"
    then obtain r' where r': "r' \<in> set (sp_path sp u)" "fst r' = fst r" by auto
    from pr[OF r'(1)] r'(2) have "source (s_graph P) (fst r) \<in> ?D" "target (s_graph P) (fst r) \<in> ?D"
      by simp_all
    with rarc_ends(2)[of "s_graph P" r] have "?v \<in> ?D" by auto
    with False show False by simp
  qed
  have ends: "source (s_graph P) (fst r) \<in> insert ?v ?D" "target (s_graph P) (fst r) \<in> insert ?v ?D"
    using rarc_ends(3,4)[of "s_graph P" r] r(1) u by auto
  let ?sp' = "sp\<lparr>sp_dist := (sp_dist sp)(?v := Some (du + redcost P st r)),
                    sp_path := (sp_path sp)(?v := sp_path sp u @ [r])\<rparr>"
  have new: "paths_simple P \<Delta> st ?sp'"
    unfolding paths_simple_def
  proof (intro allI impI)
    fix w assume w: "sp_dist ?sp' w \<noteq> None"
    show "distinct (map fst (sp_path ?sp' w)) \<and>
        (\<forall>r\<in>set (sp_path ?sp' w).
           \<Delta> \<le> rescap P st r \<and>
           source (s_graph P) (fst r) \<in> insert w (set (sp_done ?sp')) \<and>
           target (s_graph P) (fst r) \<in> insert w (set (sp_done ?sp')))"
    proof (cases "w = ?v")
      case True
      then show ?thesis using pu pr fresh ends r(2) by auto
    next
      case False
      then show ?thesis using inv w unfolding paths_simple_def by simp
    qed
  qed
  show ?thesis
    using False new inv by (auto simp: relax_def Let_def split: option.splits)
qed

lemma relax_keeps:
  "sp_dist sp u \<noteq> None \<Longrightarrow> sp_dist (relax P st u du sp r) u \<noteq> None"
  "sp_done (relax P st u du sp r) = sp_done sp"
  by (auto simp: relax_def Let_def split: option.splits)

lemma foldl_relax_paths_simple:
  assumes "\<forall>r\<in>set rs. rsrc (s_graph P) r = u \<and> \<Delta> \<le> rescap P st r"
  shows "paths_simple P \<Delta> st sp \<Longrightarrow> sp_dist sp u \<noteq> None \<Longrightarrow> u \<in> set (sp_done sp) \<Longrightarrow>
         paths_simple P \<Delta> st (foldl (relax P st u du) sp rs)"
  using assms
proof (induction rs arbitrary: sp)
  case Nil
  then show ?case by simp
next
  case (Cons r rs)
  have 1: "paths_simple P \<Delta> st (relax P st u du sp r)"
    by (rule relax_paths_simple) (use Cons.prems in auto)
  show ?case
    using Cons.IH[OF 1] Cons.prems by (simp add: relax_keeps)
qed

lemma settle_paths_simple:
  assumes "paths_simple P \<Delta> st sp"
  shows "paths_simple P \<Delta> st (settle P \<Delta> st sp)"
proof (cases "pick_min (s_graph P) sp")
  case None
  then show ?thesis using assms by (simp add: settle_def)
next
  case (Some x)
  obtain u du where x: "x = (u, du)" by (cases x) auto
  have du: "sp_dist sp u = Some du" using Some x pick_min_dist by simp
  have "paths_simple P \<Delta> st (sp\<lparr>sp_done := u # sp_done sp\<rparr>)"
    using assms unfolding paths_simple_def by auto
  then have "paths_simple P \<Delta> st
     (foldl (relax P st u du) (sp\<lparr>sp_done := u # sp_done sp\<rparr>)
        (filter (\<lambda>r. rsrc (s_graph P) r = u \<and> \<Delta> \<le> rescap P st r) (rarcs (s_graph P))))"
    by (rule foldl_relax_paths_simple[rotated]) (use du in auto)
  then show ?thesis using Some x by (simp add: settle_def)
qed

lemma dijkstra_paths_simple: "paths_simple P \<Delta> st (dijkstra P \<Delta> st s)"
proof -
  have "paths_simple P \<Delta> st ((settle P \<Delta> st ^^ k)
       \<lparr>sp_dist = (\<lambda>_. None)(s := Some 0), sp_path = (\<lambda>_. []), sp_done = []\<rparr>)" for k
  proof (induction k)
    case 0
    show ?case by (simp add: paths_simple_def)
  next
    case (Suc k)
    then show ?case by (simp add: settle_paths_simple)
  qed
  then show ?thesis by (simp add: dijkstra_def)
qed

lemma foldl_push_apply:
  "distinct (map fst p) \<Longrightarrow>
   foldl (push \<Delta>) f p a =
     (if (a, Fwd) \<in> set p then f a + \<Delta> else if (a, Bwd) \<in> set p then f a - \<Delta> else f a)"
proof (induction p arbitrary: f)
  case Nil
  then show ?case by simp
next
  case (Cons r p)
  obtain b d where r: "r = (b, d)" by (cases r) auto
  from Cons.prems have d: "distinct (map fst p)" and b: "b \<notin> fst ` set p" by (auto simp: r)
  from b have nb: "(b, Fwd) \<notin> set p" "(b, Bwd) \<notin> set p" by force+
  show ?case
  proof (cases d)
    case Fwd
    have "foldl (push \<Delta>) f (r # p) a = foldl (push \<Delta>) (f(b := f b + \<Delta>)) p a"
      by (simp add: r Fwd)
    also have "\<dots> = (if (a, Fwd) \<in> set p then (f(b := f b + \<Delta>)) a + \<Delta>
                     else if (a, Bwd) \<in> set p then (f(b := f b + \<Delta>)) a - \<Delta>
                     else (f(b := f b + \<Delta>)) a)"
      by (rule Cons.IH[OF d])
    finally show ?thesis using nb by (auto simp: r Fwd)
  next
    case Bwd
    have "foldl (push \<Delta>) f (r # p) a = foldl (push \<Delta>) (f(b := f b - \<Delta>)) p a"
      by (simp add: r Bwd)
    also have "\<dots> = (if (a, Fwd) \<in> set p then (f(b := f b - \<Delta>)) a + \<Delta>
                     else if (a, Bwd) \<in> set p then (f(b := f b - \<Delta>)) a - \<Delta>
                     else (f(b := f b - \<Delta>)) a)"
      by (rule Cons.IH[OF d])
    finally show ?thesis using nb by (auto simp: r Bwd)
  qed
qed

lemma augment_bounds:
  assumes "within_bounds P (e_flow st)" "1 \<le> \<Delta>" "find_augmentation P \<Delta> st = Some x"
  shows "within_bounds P (e_flow (augment \<Delta> x st))"
proof -
  obtain s t sp where x: "x = (s, t, sp)" by (cases x) auto
  from find_augmentation_SomeD[OF assms(3)[unfolded x]]
  have sp: "sp = dijkstra P \<Delta> st s" and t: "sp_dist sp t \<noteq> None" by blast+
  from dijkstra_paths_simple[of P \<Delta> st s] t
  have d: "distinct (map fst (sp_path sp t))"
    and adm: "\<And>r. r \<in> set (sp_path sp t) \<Longrightarrow> \<Delta> \<le> rescap P st r"
    unfolding sp paths_simple_def by blast+
  have fl: "e_flow (augment \<Delta> x st) = foldl (push \<Delta>) (e_flow st) (sp_path sp t)"
    by (simp add: x augment_def Let_def)
  show ?thesis
    unfolding within_bounds_def list_all_iff fl
  proof
    fix a assume a: "a \<in> set (ArcIt (s_graph P))"
    from assms(1) a have b: "s_lower P a \<le> e_flow st a" "e_flow st a \<le> s_upper P a"
      by (auto simp: within_bounds_def list_all_iff)
    show "s_lower P a \<le> foldl (push \<Delta>) (e_flow st) (sp_path sp t) a \<and>
          foldl (push \<Delta>) (e_flow st) (sp_path sp t) a \<le> s_upper P a"
      unfolding foldl_push_apply[OF d]
      using b assms(2) adm[of "(a, Fwd)"] adm[of "(a, Bwd)"] by auto
  qed
qed

lemma phase_bounds:
  "within_bounds P (e_flow st) \<Longrightarrow> within_bounds P (e_flow (phase P \<Delta> st))"
proof (induction P \<Delta> st rule: phase.induct)
  case (1 P \<Delta> st)
  show ?case
  proof (cases "\<Delta> < 1")
    case True
    then show ?thesis using "1.prems" by (simp add: phase.simps)
  next
    case False
    show ?thesis
    proof (cases "find_augmentation P \<Delta> st")
      case None
      then show ?thesis using "1.prems" False by (simp add: phase.simps)
    next
      case (Some x)
      have "within_bounds P (e_flow (augment \<Delta> x st))"
        by (rule augment_bounds[OF "1.prems" _ Some]) (use False in simp)
      from "1.IH"[OF False Some this]
      show ?thesis using False Some by (subst phase.simps) simp
    qed
  qed
qed

lemma scaling_bounds:
  "within_bounds P (e_flow st) \<Longrightarrow> within_bounds P (e_flow (scaling P \<Delta> st))"
proof (induction P \<Delta> st rule: scaling.induct)
  case (1 P \<Delta> st)
  show ?case
  proof (cases "\<Delta> < 1")
    case True
    then show ?thesis using "1.prems" by (simp add: scaling.simps)
  next
    case False
    from "1.IH"[OF False phase_bounds[OF "1.prems"]]
    show ?thesis using False by (subst scaling.simps) simp
  qed
qed

lemma eliminate_flow_prefix:
  "e_flow (foldl (eliminate_arc P) st0 [0..<k]) a = (if a < k then s_lower P a else e_flow st0 a)"
  by (induction k) (auto simp: eliminate_arc_def Let_def)

lemma eliminate_lower_bounds:
  "valid_config P \<Longrightarrow> within_bounds P (e_flow (eliminate_lower P))"
  by (auto simp: within_bounds_def valid_config_def list_all_iff eliminate_lower_def
      eliminate_flow_prefix ArcIt_def)

lemma run_bounds:
  assumes "run P = Inr P'" "a < countArcs (s_graph P)"
  shows "s_lower P a \<le> flow P' a \<and> flow P' a \<le> s_upper P a"
proof -
  let ?init = "init_potentials P (eliminate_lower P)"
  let ?st = "scaling P (int (pow2_below (nat (max_excess (s_graph P) ?init)))) ?init"
  from assms(1) have v: "valid_config P" and P': "P' = P\<lparr>s_flow := e_flow ?st\<rparr>"
    by (auto simp: run_def Let_def split: if_splits)
  have "e_flow ?init = e_flow (eliminate_lower P)" by (simp add: init_potentials_def)
  then have "within_bounds P (e_flow ?init)" using eliminate_lower_bounds[OF v] by simp
  then have "within_bounds P (e_flow ?st)" by (rule scaling_bounds)
  then show ?thesis using assms(2)
    by (simp add: within_bounds_def list_all_iff ArcIt_def countArcs_def P' flow_def)
qed


section \<open>The engine: balance\<close>


lemma sum_list_delta:
  fixes c :: int
  shows "(\<Sum>n\<leftarrow>[0..<N]. if x = n then c else 0) = (if x < N then c else 0)"
  by (induction N) auto

lemma sum_list_swap_upt:
  fixes F :: "nat \<Rightarrow> nat \<Rightarrow> int"
  shows "(\<Sum>n\<leftarrow>[0..<N]. \<Sum>a\<leftarrow>[0..<M]. F n a) = (\<Sum>a\<leftarrow>[0..<M]. \<Sum>n\<leftarrow>[0..<N]. F n a)"
  by (simp add: interv_sum_list_conv_sum_set_nat sum.swap[of _ "{0..<M}"])

lemma net_out_total:
  assumes "wf_graph gr"
  shows "(\<Sum>n\<leftarrow>[0..<nodeNum gr]. net_out gr f n) = 0"
proof -
  let ?M = "length (arcList gr)"
  let ?N = "nodeNum gr"
  have ends: "source gr a < ?N" "target gr a < ?N" if "a < ?M" for a
    using assms that by (auto simp: wf_graph_def list_all_length source_def target_def)
  have 1: "(\<Sum>n\<leftarrow>[0..<?N]. \<Sum>a\<leftarrow>[0..<?M]. if source gr a = n then f a else 0) = (\<Sum>a\<leftarrow>[0..<?M]. f a)"
    unfolding sum_list_swap_upt[of "\<lambda>n a. if source gr a = n then f a else 0"]
    by (intro arg_cong[where f=sum_list] map_cong refl) (simp add: sum_list_delta ends)
  have 2: "(\<Sum>n\<leftarrow>[0..<?N]. \<Sum>a\<leftarrow>[0..<?M]. if target gr a = n then f a else 0) = (\<Sum>a\<leftarrow>[0..<?M]. f a)"
    unfolding sum_list_swap_upt[of "\<lambda>n a. if target gr a = n then f a else 0"]
    by (intro arg_cong[where f=sum_list] map_cong refl) (simp add: sum_list_delta ends)
  show ?thesis
    unfolding net_out_def ArcIt_def sum_list_subtractf 1 2 by simp
qed

lemma run_balanced:
  assumes "run P = Inr P'" "wf_graph (s_graph P)"
  shows "sum_list (map (s_supply P) (NodeIt (s_graph P))) = 0"
proof -
  have "sum_list (map (s_supply P) (NodeIt (s_graph P))) =
        sum_list (map (net_out (s_graph P) (flow P')) (NodeIt (s_graph P)))"
    by (rule arg_cong[where f=sum_list], rule map_cong[OF refl])
       (simp add: NodeIt_def run_conservation[OF assms(1)])
  also have "\<dots> = 0" using net_out_total[OF assms(2), of "flow P'"] by (simp add: NodeIt_def)
  finally show ?thesis .
qed

lemma run_verdicts:
  "run P = Inl e \<Longrightarrow> e = (if valid_config P then InfeasibleError else ConfigError)"
  by (auto simp: run_def Let_def split: if_splits)

lemma configure_simps:
  "s_graph (configure i) = graph_of i" "s_lower (configure i) = (\<lambda>_. 0)"
  "s_upper (configure i) = capacity i" "s_cost (configure i) = cost i"
  "s_supply (configure i) = supply_of i" "s_flow (configure i) = (\<lambda>_. 0)"
  by (simp_all add: configure_def supplyMap_def costMap_def upperMap_def CapacityScaling_def)

lemma run_fits:
  assumes "run (configure i) = Inr A"
  shows "fits i (flow A)"
  unfolding fits_def list_all_iff
proof (rule conjI; rule ballI)
  fix a assume "a \<in> set (ArcIt (graph_of i))"
  then have "a < countArcs (s_graph (configure i))"
    by (simp add: ArcIt_def countArcs_def configure_simps)
  from run_bounds[OF assms this] show "0 \<le> flow A a \<and> flow A a \<le> capacity i a"
    by (simp add: configure_simps)
next
  fix n assume "n \<in> set (NodeIt (graph_of i))"
  then have "n < nodeNum (s_graph (configure i))" by (simp add: NodeIt_def configure_simps)
  from run_conservation[OF assms this] show "net_out (graph_of i) (flow A) n = supply_of i n"
    by (simp add: configure_simps)
qed

lemma conservation_balanced:
  assumes "list_all (\<lambda>n. net_out gr f n = d n) (NodeIt gr)" "wf_graph gr"
  shows "sum_list (map d (NodeIt gr)) = 0"
proof -
  have "sum_list (map d (NodeIt gr)) = sum_list (map (net_out gr f) (NodeIt gr))"
    by (rule arg_cong[where f=sum_list], rule map_cong[OF refl])
       (use assms(1) in \<open>simp add: list_all_iff\<close>)
  also have "\<dots> = 0" using net_out_total[OF assms(2), of f] by (simp add: NodeIt_def)
  finally show ?thesis .
qed

lemma failed_run_outcome:
  assumes "3 \<le> length argv" "readDimacsMin (ifstream files (argv ! 1)) = Inr i"
    "writable (argv ! 2)" "solve (configure i) = Inl e"
  shows "main solve left argv files writable =
     \<lparr>diagnostics = [Counts (countNodes (graph_of i)) (countArcs (graph_of i)),
                     TotalCost (totalCost (left (configure i)))],
      out_file = Some (argv ! 2, write_flow (graph_of i) (left (configure i))),
      ending = Exit 0\<rparr>"
  using assms
  by (simp add: main_def Let_def after_run_def)

section \<open>Float storage\<close>

lemma float_constants:
  "float_min_normal = 1 / 2 ^ 126" "float_max = (2 - 1 / 2 ^ 23) * 2 ^ 127"
  by (simp_all add: float_min_normal_def float_max_def)

lemma to_float_values:
  "to_float 0 = 0"
  "to_float (1 / 10) = 13421773 / 134217728"
  "to_float (- (1 / 3)) = - (11184811 / 33554432)"
  "to_float 16777217 = 16777216"
  "to_float 16777219 = 16777220"
  "to_float (3 / 2 ^ 150) = 1 / 2 ^ 148"
  by code_simp+

section \<open>The engine on the triangle\<close>

lemma to_float_exact: "to_float 1 = 1" "to_float 5 = 5"
  by code_simp+

lemma tri_read: "readDimacsMin (triangle u0 u1 u2) = Inr (tri u0 u1 u2)"
  by (simp add: readDimacsMin_def triangle_def reader0_def emptyGraph_def
      in_range_def addNode_def addArc_def eval_nat_numeral tri_def to_float_exact)

lemma upt3: "[0..<3] = [0, 1, 2]"
  by (simp add: eval_nat_numeral)

lemma tri_P:
  "s_graph (configure (tri u0 u1 u2)) = \<lparr>nodeNum = 3, arcList = [(0, 2), (0, 1), (1, 2)]\<rparr>"
  "s_lower (configure (tri u0 u1 u2)) = (\<lambda>_. 0)"
  "s_upper (configure (tri u0 u1 u2)) = (\<lambda>_. 0)(0 := u0, 1 := u1, 2 := u2)"
  "s_cost (configure (tri u0 u1 u2)) = (\<lambda>_. 0)(0 := 5, 1 := 1, 2 := 1)"
  "s_supply (configure (tri u0 u1 u2)) = (\<lambda>_. 0)(0 := 4, 2 := - 4)"
  by (simp_all add: configure_simps tri_def)

lemma eliminate_zero:
  assumes "s_lower P = (\<lambda>_. 0)"
  shows "foldl (eliminate_arc P) \<lparr>e_flow = (\<lambda>_. 0), e_excess = ex, e_pot = (\<lambda>_. 0)\<rparr> as =
         \<lparr>e_flow = (\<lambda>_. 0), e_excess = ex, e_pot = (\<lambda>_. 0)\<rparr>"
proof (induction as)
  case Nil
  show ?case by simp
next
  case (Cons a as)
  have "eliminate_arc P \<lparr>e_flow = (\<lambda>_. 0), e_excess = ex, e_pot = (\<lambda>_. 0)\<rparr> a =
        \<lparr>e_flow = (\<lambda>_. 0), e_excess = ex, e_pot = (\<lambda>_. 0)\<rparr>"
    by (simp add: eliminate_arc_def assms Let_def fun_eq_iff)
  then show ?case using Cons.IH by simp
qed

lemma tri_init:
  "init_potentials (configure (tri u0 u1 u2)) (eliminate_lower (configure (tri u0 u1 u2))) = tri_start"
proof -
  have "eliminate_lower (configure (tri u0 u1 u2)) = tri_start"
    unfolding eliminate_lower_def eliminate_zero[OF tri_P(2)] by (simp add: tri_P tri_start_def)
  then show ?thesis
    by (simp add: tri_P init_potentials_def ArcIt_def upt3 tri_start_def)
qed

lemma tri_delta: "int (pow2_below (nat (max_excess (s_graph (configure (tri u0 u1 u2))) tri_start))) = 4"
  by (simp add: max_excess_def tri_P NodeIt_def upt3 tri_start_def pow2_below.simps)


lemma funpow3: "(f ^^ 3) x = f (f (f x))"
  by (simp add: eval_nat_numeral)

lemma tri_search:
  assumes "4 \<le> u1" "4 \<le> u2"
  shows "sp_dist (dijkstra (configure (tri u0 u1 u2)) 4 tri_start 0) 2 = Some 2 \<and>
         sp_path (dijkstra (configure (tri u0 u1 u2)) 4 tri_start 0) 2 = [(1, Fwd), (2, Fwd)]"
proof (cases "4 \<le> u0")
  case True
  with assms show ?thesis
    by (simp add: dijkstra_def funpow3 settle_def pick_min_def closer_def relax_def redcost_def
        rarcs_def tri_P ArcIt_def NodeIt_def upt3 tri_start_def source_def target_def Let_def)
next
  case False
  with assms show ?thesis
    by (simp add: dijkstra_def funpow3 settle_def pick_min_def closer_def relax_def redcost_def
        rarcs_def tri_P ArcIt_def NodeIt_def upt3 tri_start_def source_def target_def Let_def)
qed


lemma tri_find:
  assumes "4 \<le> u1" "4 \<le> u2"
  shows "find_augmentation (configure (tri u0 u1 u2)) 4 tri_start =
         Some (0, 2, dijkstra (configure (tri u0 u1 u2)) 4 tri_start 0)"
  using tri_search[OF assms, of u0]
  by (simp add: find_augmentation_def try_source_def tri_P NodeIt_def upt3 tri_start_def Let_def)

lemma phase_idle:
  assumes "list_all (\<lambda>n. e_excess st n = 0) (NodeIt (s_graph P))"
  shows "phase P \<Delta> st = st"
proof (cases "\<Delta> < 1")
  case True
  then show ?thesis by (simp add: phase.simps)
next
  case False
  with assms have "filter (\<lambda>s. \<Delta> \<le> e_excess st s) (NodeIt (s_graph P)) = []"
    by (auto simp: list_all_iff filter_empty_conv)
  then show ?thesis by (simp add: phase.simps[of P \<Delta> st] find_augmentation_def)
qed

lemma scaling_idle:
  "list_all (\<lambda>n. e_excess st n = 0) (NodeIt (s_graph P)) \<Longrightarrow> scaling P \<Delta> st = st"
proof (induction P \<Delta> st rule: scaling.induct)
  case (1 P \<Delta> st)
  show ?case
  proof (cases "\<Delta> < 1")
    case True
    then show ?thesis by (simp add: scaling.simps)
  next
    case False
    have p: "phase P \<Delta> st = st" by (rule phase_idle[OF "1.prems"])
    from "1.IH"[OF False] "1.prems" have "scaling P (\<Delta> div 2) st = st" by (simp add: p)
    then show ?thesis using False by (subst scaling.simps) (simp add: p)
  qed
qed

lemma tri_scaling:
  assumes "4 \<le> u1" "4 \<le> u2"
  shows "scaling (configure (tri u0 u1 u2)) 4 tri_start =
         augment 4 (0, 2, dijkstra (configure (tri u0 u1 u2)) 4 tri_start 0) tri_start"
proof -
  let ?P = "configure (tri u0 u1 u2)"
  let ?st1 = "augment 4 (0, 2, dijkstra ?P 4 tri_start 0) tri_start"
  have idle: "list_all (\<lambda>n. e_excess ?st1 n = 0) (NodeIt (s_graph ?P))"
    by (simp add: augment_def Let_def tri_start_def tri_P NodeIt_def upt3)
  have "phase ?P 4 tri_start = phase ?P 4 ?st1"
    by (subst phase.simps) (simp add: tri_find[OF assms])
  also have "\<dots> = ?st1" by (rule phase_idle[OF idle])
  finally have p: "phase ?P 4 tri_start = ?st1" .
  have "scaling ?P 4 tri_start = scaling ?P (4 div 2) ?st1"
    by (subst scaling.simps) (simp add: p)
  also have "\<dots> = ?st1" by (rule scaling_idle[OF idle])
  finally show ?thesis .
qed

lemma tri_run:
  assumes "0 \<le> u0" "4 \<le> u1" "4 \<le> u2"
  shows "run (configure (tri u0 u1 u2)) =
         Inr ((configure (tri u0 u1 u2))\<lparr>s_flow := (\<lambda>_. 0)(1 := 4, 2 := 4)\<rparr>)"
proof -
  let ?P = "configure (tri u0 u1 u2)"
  let ?st1 = "augment 4 (0, 2, dijkstra ?P 4 tri_start 0) tri_start"
  have v: "valid_config ?P" using assms by (simp add: valid_config_def tri_P ArcIt_def upt3)
  have z: "list_all (\<lambda>n. e_excess ?st1 n = 0) (NodeIt (s_graph ?P))"
    by (simp add: augment_def Let_def tri_start_def tri_P NodeIt_def upt3)
  have f: "e_flow ?st1 = (\<lambda>_. 0)(1 := 4, 2 := 4)"
    using tri_search[OF assms(2,3), of u0] by (simp add: augment_def Let_def tri_start_def)
  show ?thesis
    unfolding run_def tri_init tri_delta Let_def tri_scaling[OF assms(2,3)]
    using v z f by simp
qed

section \<open>The program: what its output is\<close>

lemma map_filter_enumerate:
  assumes "\<And>k. k < length xs \<Longrightarrow> f (n + k) = h (n + k) (xs ! k)"
  shows "map f (filter P [n..<n + length xs]) =
         map (\<lambda>(e, x). h e x) (filter (\<lambda>(e, x). P e) (enumerate n xs))"
  using assms
proof (induction xs arbitrary: n)
  case Nil
  then show ?case by simp
next
  case (Cons x xs)
  have a: "f n = h n x" using Cons.prems[of 0] by simp
  have b: "\<And>k. k < length xs \<Longrightarrow> f (Suc n + k) = h (Suc n + k) (xs ! k)"
    using Cons.prems[of "Suc k" for k] by simp
  have "[n..<n + Suc (length xs)] = n # [Suc n..<n + Suc (length xs)]"
    by (rule upt_conv_Cons) simp
  then have c: "[n..<n + length (x # xs)] = n # [Suc n..<Suc n + length xs]"
    by simp
  show ?case unfolding c using Cons.IH[OF b] a by simp
qed


section \<open>The claims\<close>

text \<open>
  C1. The claim: the flow returned satisfies \<open>lower(a) \<le> flow(a) \<le> upper(a)\<close> on every arc,
  also where the declared lower bound is positive. \<^verbatim>\<open>main\<close> reads the lower map and never
  hands it to the solver. On the circulation whose first arc has lower bound 1 (a flow of 1
  on both arcs meets every bound), the run succeeds with flow 0 on that arc and the output
  file has no line; the same solver, given the lower map, puts 1 on both arcs.
\<close>
theorem lower_bound_violated:
  "(case readDimacsMin (circulation 1) of
      Inl e \<Rightarrow> False
    | Inr i \<Rightarrow>
        lower i 0 = 1 \<and> capacity i 0 = 2 \<and>
        verdict run (circulation 1) = None \<and>
        flow (after_run run as_before (configure i)) 0 = 0 \<and>
        map (flow (after_run run as_before (lowerMap (lower i) (configure i)))) [0, 1] = [1, 1]) \<and>
   out_file (main run as_before argv3 (input_file (circulation 1)) any_path) =
     Some (''out.txt'', [])"
  by code_simp

text \<open>
  C2. The claim: an instance whose supplies do not sum to zero (more generally, one with
  no feasible flow) yields InfeasibleError and the program never returns or emits a flow.
  The engine does fail on such an instance, but \<^verbatim>\<open>main\<close> drops the verdict of \<^verbatim>\<open>run\<close>: with supply
  5, demand 3 and one arc between the two nodes the run fails with InfeasibleError, and the
  program reports a total cost, writes the output file and exits with 0 (here with a run
  that leaves the solver object as it was; the amended claim holds whatever it leaves).
\<close>
theorem infeasible_counterexample:
  "verdict run surplus = Some InfeasibleError \<and>
   ending (main run as_before argv3 (input_file surplus) any_path) = Exit 0 \<and>
   map_option fst (out_file (main run as_before argv3 (input_file surplus) any_path)) =
     Some ''out.txt'' \<and>
   length (reported_cost (diagnostics (main run as_before argv3 (input_file surplus) any_path))) = 1"
  by code_simp

text \<open>
  C2, amended. For every instance the reader accepts whose supplies do not sum to zero,
  and for every one that has no flow meeting conservation within 0 and the upper bounds,
  the engine's \<^verbatim>\<open>run\<close> fails (with InfeasibleError; with ConfigError when an upper bound is
  negative). The program drops that verdict: given both arguments and a writable output
  path it goes on to report the total cost and to write the output file, both taken from
  whatever the solver object holds after the failed run, and exits with 0.
\<close>
theorem infeasible_ignored:
  assumes "3 \<le> length argv" "readDimacsMin (ifstream files (argv ! 1)) = Inr i"
    "writable (argv ! 2)"
    "sum_list (map (supply_of i) (NodeIt (graph_of i))) \<noteq> 0 \<or> (\<forall>f. \<not> fits i f)"
  shows "run (configure i) =
           Inl (if valid_config (configure i) then InfeasibleError else ConfigError) \<and>
         main run left argv files writable =
           \<lparr>diagnostics = [Counts (countNodes (graph_of i)) (countArcs (graph_of i)),
                           TotalCost (totalCost (left (configure i)))],
            out_file = Some (argv ! 2, write_flow (graph_of i) (left (configure i))),
            ending = Exit 0\<rparr>"
proof -
  have "\<exists>e. run (configure i) = Inl e"
  proof (cases "run (configure i)")
    case (Inl e)
    then show ?thesis by simp
  next
    case (Inr A)
    from run_balanced[OF Inr] readDimacsMin_wf[OF assms(2)] run_fits[OF Inr] assms(4)
    show ?thesis by (auto simp: configure_simps)
  qed
  then obtain e where e: "run (configure i) = Inl e" by blast
  from run_verdicts[OF e] e
    failed_run_outcome[of argv files i writable run e left, OF assms(1-3) e]
  show ?thesis by simp
qed

theorem infeasible_ignored_witness:
  "3 \<le> length argv3 \<and>
   \<not> isl (readDimacsMin (ifstream (input_file surplus) (argv3 ! 1))) \<and>
   any_path (argv3 ! 2) \<and>
   sum_list (map (supply_of (projr (readDimacsMin surplus)))
     (NodeIt (graph_of (projr (readDimacsMin surplus))))) \<noteq> 0 \<and>
   run (configure (projr (readDimacsMin surplus))) = Inl InfeasibleError \<and>
   main run as_before argv3 (input_file surplus) any_path =
     \<lparr>diagnostics = [Counts 2 1,
        TotalCost (totalCost (as_before (configure (projr (readDimacsMin surplus)))))],
      out_file = Some (''out.txt'', write_flow (graph_of (projr (readDimacsMin surplus)))
        (as_before (configure (projr (readDimacsMin surplus))))),
      ending = Exit 0\<rparr>"
proof -
  let ?i = "projr (readDimacsMin surplus)"
  have f: "ifstream (input_file surplus) (argv3 ! 1) = surplus"
    by (simp add: ifstream_def input_file_def argv3_def)
  have a: "3 \<le> length argv3" by (simp add: argv3_def)
  have r: "\<not> isl (readDimacsMin surplus)" by code_simp
  then have b: "readDimacsMin (ifstream (input_file surplus) (argv3 ! 1)) = Inr ?i"
    unfolding f by simp
  have c: "any_path (argv3 ! 2)" by (simp add: any_path_def)
  have d: "sum_list (map (supply_of ?i) (NodeIt (graph_of ?i))) \<noteq> 0" by code_simp
  have v: "valid_config (configure ?i)" by code_simp
  have n: "countNodes (graph_of ?i) = 2" "countArcs (graph_of ?i) = 1" "argv3 ! 2 = ''out.txt''"
    by code_simp+
  from infeasible_ignored[of argv3 "input_file surplus" ?i any_path as_before,
      OF a b c disjI1[OF d]] a r c d v n
  show ?thesis unfolding f by simp
qed




text \<open>
  C4. The claim: on every instance on which the program returns a flow, conservation holds
  exactly at every node. The program cannot tell a run of the engine that failed from one
  that returned a flow: with supply 5, demand 3 and one arc between the two nodes the run
  fails with InfeasibleError, yet the program exits with 0 and writes the output file for
  the flow the solver object then holds. That flow does not meet conservation, and
  whatever the failed run leaves there, none can: the supplies sum to 2 (lemma
  \<open>conservation_balanced\<close>).
\<close>
theorem conservation_counterexample:
  "verdict run surplus = Some InfeasibleError \<and>
   ending (main run as_before argv3 (input_file surplus) any_path) = Exit 0 \<and>
   out_file (main run as_before argv3 (input_file surplus) any_path) =
     Some (''out.txt'', write_flow (graph_of (projr (readDimacsMin surplus)))
       (after_run run as_before (configure (projr (readDimacsMin surplus))))) \<and>
   sum_list (map (supply_of (projr (readDimacsMin surplus)))
     (NodeIt (graph_of (projr (readDimacsMin surplus))))) = 2 \<and>
   map (net_out (graph_of (projr (readDimacsMin surplus)))
         (flow (after_run run as_before (configure (projr (readDimacsMin surplus))))))
     (NodeIt (graph_of (projr (readDimacsMin surplus)))) \<noteq>
   map (supply_of (projr (readDimacsMin surplus)))
     (NodeIt (graph_of (projr (readDimacsMin surplus))))"
  by code_simp

text \<open>
  C4, amended. For every instance on which the engine's \<^verbatim>\<open>run\<close> returns a flow (a verdict the
  program does not look at), the program, given both arguments and a writable output
  path, writes exactly that flow, one line for each arc on which it is not 0, and the flow
  meets conservation exactly at every node: flow on the outgoing arcs minus flow on the
  incoming arcs is the node's declared supply.
\<close>
theorem flow_conservation:
  assumes "3 \<le> length argv" "readDimacsMin (ifstream files (argv ! 1)) = Inr i"
    "writable (argv ! 2)" "run (configure i) = Inr A"
  shows "out_file (main run left argv files writable) =
           Some (argv ! 2,
             map (\<lambda>e. show_nat (source (graph_of i) e) @ '' '' @
                       show_nat (target (graph_of i) e) @ '' '' @ show_int (flow A e))
               (filter (\<lambda>e. flow A e \<noteq> 0) (ArcIt (graph_of i)))) \<and>
         list_all (\<lambda>n. net_out (graph_of i) (flow A) n = supply_of i n) (NodeIt (graph_of i))"
proof -
  have w: "out_file (main run left argv files writable) =
           Some (argv ! 2, write_flow (graph_of i) A)"
    using assms by (simp add: main_def Let_def after_run_def)
  have c: "net_out (graph_of i) (flow A) n = supply_of i n" if "n \<in> set (NodeIt (graph_of i))" for n
  proof -
    from that have "n < nodeNum (s_graph (configure i))" by (simp add: NodeIt_def configure_simps)
    from run_conservation[OF assms(4) this] show ?thesis by (simp add: configure_simps)
  qed
  from w c show ?thesis
    unfolding write_flow_def flow_line_def node_id_def list_all_iff by simp
qed

theorem flow_conservation_witness:
  "3 \<le> length argv3 \<and>
   \<not> isl (readDimacsMin (ifstream (input_file scenario3) (argv3 ! 1))) \<and>
   any_path (argv3 ! 2) \<and>
   \<not> isl (run (configure (projr (readDimacsMin scenario3)))) \<and>
   out_file (main run as_before argv3 (input_file scenario3) any_path) =
     Some (''out.txt'', [''0 1 4'', ''1 2 4'']) \<and>
   map (net_out (graph_of (projr (readDimacsMin scenario3)))
          (flow (projr (run (configure (projr (readDimacsMin scenario3))))))) [0, 1, 2] =
     [4, 0, - 4] \<and>
   map (supply_of (projr (readDimacsMin scenario3))) [0, 1, 2] = [4, 0, - 4]"
proof -
  let ?i = "projr (readDimacsMin scenario3)"
  let ?A = "projr (run (configure ?i))"
  have f: "ifstream (input_file scenario3) (argv3 ! 1) = scenario3"
    by (simp add: ifstream_def input_file_def argv3_def)
  have a: "3 \<le> length argv3" by (simp add: argv3_def)
  have r: "\<not> isl (readDimacsMin scenario3)" by code_simp
  then have b: "readDimacsMin (ifstream (input_file scenario3) (argv3 ! 1)) = Inr ?i"
    unfolding f by simp
  have c: "any_path (argv3 ! 2)" by (simp add: any_path_def)
  have s: "\<not> isl (run (configure ?i))" by code_simp
  then have d: "run (configure ?i) = Inr ?A" by simp
  have n: "NodeIt (graph_of ?i) = [0, 1, 2]" by code_simp
  have su: "map (supply_of ?i) [0, 1, 2] = [4, 0, - 4]" by code_simp
  have l: "Some (argv3 ! 2,
             map (\<lambda>e. show_nat (source (graph_of ?i) e) @ '' '' @
                       show_nat (target (graph_of ?i) e) @ '' '' @ show_int (flow ?A e))
               (filter (\<lambda>e. flow ?A e \<noteq> 0) (ArcIt (graph_of ?i)))) =
           Some (''out.txt'', [''0 1 4'', ''1 2 4''])"
    by code_simp
  from flow_conservation[of argv3 "input_file scenario3" ?i any_path ?A as_before, OF a b c d]
  have "out_file (main run as_before argv3 (input_file scenario3) any_path) =
          Some (''out.txt'', [''0 1 4'', ''1 2 4''])"
    and "map (net_out (graph_of ?i) (flow ?A)) [0, 1, 2] = map (supply_of ?i) [0, 1, 2]"
    unfolding l n by simp_all
  with a r c s su show ?thesis unfolding f by simp
qed

text \<open>
  C5. On the triangle instance (nodes 0, 1, 2; a direct arc from 0 to 2 of cost 5, arcs from
  0 to 1 and from 1 to 2 of cost 1 each; supply 4 at node 0, demand 4 at node 2; in the
  input file the nodes are 1, 2, 3) the engine puts all 4 units on the two-hop path and
  none on the direct arc, and the total cost reported is 8, not 20. This holds whatever
  the upper bounds are, as long as the two-hop path can carry the 4 units.
\<close>
theorem triangle_two_hop:
  assumes "0 \<le> u0" "4 \<le> u1" "4 \<le> u2"
  shows "arc_lines (triangle u0 u1 u2) = [(1, 3), (1, 2), (2, 3)] \<and>
     readDimacsMin (triangle u0 u1 u2) = Inr (tri u0 u1 u2) \<and>
     verdict run (triangle u0 u1 u2) = None \<and>
     map (flow (after_run run left (configure (tri u0 u1 u2)))) [0, 1, 2] = [0, 4, 4] \<and>
     main run left argv3 (input_file (triangle u0 u1 u2)) any_path =
       \<lparr>diagnostics = [Counts 3 3, TotalCost 8],
        out_file = Some (''out.txt'', [''0 1 4'', ''1 2 4'']), ending = Exit 0\<rparr>"
proof -
  have f: "ifstream (input_file (triangle u0 u1 u2)) (argv3 ! 1) = triangle u0 u1 u2"
    by (simp add: ifstream_def input_file_def argv3_def)
  have g: "graph_of (tri u0 u1 u2) = \<lparr>nodeNum = 3, arcList = [(0, 2), (0, 1), (1, 2)]\<rparr>"
    by (simp add: tri_def)
  have w: "write_flow (graph_of (tri u0 u1 u2))
      ((configure (tri u0 u1 u2))\<lparr>s_flow := (\<lambda>_. 0)(1 := 4, 2 := 4)\<rparr>) = [''0 1 4'', ''1 2 4'']"
    by (simp add: g write_flow_def flow_line_def flow_def ArcIt_def upt3 source_def target_def
        node_id_def show_int_def show_nat.simps)
  have c: "totalCost ((configure (tri u0 u1 u2))\<lparr>s_flow := (\<lambda>_. 0)(1 := 4, 2 := 4)\<rparr>) = 8"
    by (simp add: totalCost_def tri_P ArcIt_def upt3)
  have a: "arc_lines (triangle u0 u1 u2) = [(1, 3), (1, 2), (2, 3)]"
    by (simp add: triangle_def)
  have v: "verdict run (triangle u0 u1 u2) = None"
    by (simp add: verdict_def tri_read tri_run[OF assms])
  have fl: "map (flow (after_run run left (configure (tri u0 u1 u2)))) [0, 1, 2] = [0, 4, 4]"
    by (simp add: after_run_def tri_run[OF assms] flow_def)
  have m: "main run left argv3 (input_file (triangle u0 u1 u2)) any_path =
       \<lparr>diagnostics = [Counts 3 3, TotalCost 8],
        out_file = Some (''out.txt'', [''0 1 4'', ''1 2 4'']), ending = Exit 0\<rparr>"
    unfolding main_def f tri_read
    using w c
    by (simp add: tri_run[OF assms] after_run_def Let_def argv3_def any_path_def g
        countNodes_def countArcs_def)
  from a tri_read v fl m show ?thesis by simp
qed

theorem triangle_two_hop_witness:
  "(0::int) \<le> 10 \<and> (4::int) \<le> 10 \<and>
   verdict run (triangle 10 10 10) = None \<and>
   map (flow (after_run run as_before (configure (tri 10 10 10)))) [0, 1, 2] = [0, 4, 4] \<and>
   main run as_before argv3 (input_file (triangle 10 10 10)) any_path =
     \<lparr>diagnostics = [Counts 3 3, TotalCost 8],
      out_file = Some (''out.txt'', [''0 1 4'', ''1 2 4'']), ending = Exit 0\<rparr>"
proof -
  have h: "(0::int) \<le> 10" "(4::int) \<le> 10" by simp_all
  from triangle_two_hop[OF h(1) h(2) h(2), of as_before] h show ?thesis by simp
qed

text \<open>
  C6. The claim: one line per arc with nonzero flow, in arc insertion order, as source id,
  target id, flow value, the ids in a base consistent with the 1-based ids of the input
  file. On scenario 1 the input file names the arc's ends 1 and 2; the output line names
  them 0 and 1.
\<close>
theorem flow_output_counterexample:
  "arc_lines scenario1 = [(1, 2)] \<and>
   out_file (main run as_before argv3 (input_file scenario1) any_path) =
     Some (''out.txt'', [''0 1 5''])"
  by code_simp

text \<open>
  C6, amended. On every run that writes the output file, the file holds exactly one line
  for each arc record of the input whose arc has nonzero flow, in the order of the arc
  records, made of source id, target id and flow value with a blank between; arcs with
  zero flow are left out. The ids are the Graph Store's 0-based ids: each is the id the
  input file gives the node, less one.
\<close>
theorem flow_output_lines:
  assumes "3 \<le> length argv" "readDimacsMin (ifstream files (argv ! 1)) = Inr i"
    "writable (argv ! 2)"
  shows "out_file (main solve left argv files writable) =
     Some (argv ! 2,
       map (\<lambda>(e, u, v). show_nat (nat (u - 1)) @ '' '' @ show_nat (nat (v - 1)) @ '' '' @
                        show_int (flow (after_run solve left (configure i)) e))
         (filter (\<lambda>(e, _). flow (after_run solve left (configure i)) e \<noteq> 0)
            (enumerate 0 (arc_lines (ifstream files (argv ! 1))))))"
proof -
  let ?ls = "ifstream files (argv ! 1)"
  let ?A = "after_run solve left (configure i)"
  let ?h = "\<lambda>e. \<lambda>(u :: int, v :: int).
     show_nat (nat (u - 1)) @ '' '' @ show_nat (nat (v - 1)) @ '' '' @ show_int (flow ?A e)"
  have arcs: "arcList (graph_of i) = map (\<lambda>(u, v). (nat (u - 1), nat (v - 1))) (arc_lines ?ls)"
    by (rule readDimacsMin_arcs[OF assms(2)])
  have len: "length (arcList (graph_of i)) = length (arc_lines ?ls)"
    unfolding arcs by simp
  have "map (flow_line (graph_of i) ?A)
          (filter (\<lambda>e. flow ?A e \<noteq> 0) [0..<0 + length (arc_lines ?ls)]) =
        map (\<lambda>(e, x). ?h e x)
          (filter (\<lambda>(e, x). flow ?A e \<noteq> 0) (enumerate 0 (arc_lines ?ls)))"
    by (rule map_filter_enumerate)
       (simp add: flow_line_def node_id_def source_def target_def arcs split_beta)
  then have "write_flow (graph_of i) ?A =
        map (\<lambda>(e, x). ?h e x)
          (filter (\<lambda>(e, x). flow ?A e \<noteq> 0) (enumerate 0 (arc_lines ?ls)))"
    by (simp add: write_flow_def ArcIt_def len)
  then show ?thesis using assms
    by (simp add: main_def Let_def)
qed

theorem flow_output_lines_witness:
  "3 \<le> length argv3 \<and>
   \<not> isl (readDimacsMin (ifstream (input_file scenario3) (argv3 ! 1))) \<and>
   any_path (argv3 ! 2) \<and>
   arc_lines (ifstream (input_file scenario3) (argv3 ! 1)) = [(1, 3), (1, 2), (2, 3)] \<and>
   out_file (main run as_before argv3 (input_file scenario3) any_path) =
     Some (''out.txt'', [''0 1 4'', ''1 2 4''])"
proof -
  let ?i = "projr (readDimacsMin scenario3)"
  have f: "ifstream (input_file scenario3) (argv3 ! 1) = scenario3"
    by (simp add: ifstream_def input_file_def argv3_def)
  have a: "3 \<le> length argv3" by (simp add: argv3_def)
  have r: "\<not> isl (readDimacsMin scenario3)" by code_simp
  then have b: "readDimacsMin (ifstream (input_file scenario3) (argv3 ! 1)) = Inr ?i"
    unfolding f by simp
  have c: "any_path (argv3 ! 2)" by (simp add: any_path_def)
  have l: "arc_lines scenario3 = [(1, 3), (1, 2), (2, 3)]" by code_simp
  have v: "Some (argv3 ! 2,
       map (\<lambda>(e, u, v). show_nat (nat (u - 1)) @ '' '' @ show_nat (nat (v - 1)) @ '' '' @
                        show_int (flow (after_run run as_before (configure ?i)) e))
         (filter (\<lambda>(e, _). flow (after_run run as_before (configure ?i)) e \<noteq> 0)
            (enumerate 0 (arc_lines scenario3)))) =
     Some (''out.txt'', [''0 1 4'', ''1 2 4''])"
    by code_simp
  from flow_output_lines[of argv3 "input_file scenario3" ?i any_path run as_before, OF a b c]
    a r c l v
  show ?thesis unfolding f by simp
qed




text \<open>
  C8. The claim: fewer than two positional arguments is a usage error that does not go on
  to read the input; the exit code is 0 exactly on success, and each error kind has a
  nonzero exit code of its own. On scenario 2 the engine's \<^verbatim>\<open>run\<close> fails with InfeasibleError,
  on an arc with upper bound -1 with ConfigError, and both runs of the program exit with 0.
\<close>
theorem exit_code_counterexample:
  "verdict run scenario2 = Some InfeasibleError \<and>
   ending (main run as_before argv3 (input_file scenario2) any_path) = Exit 0 \<and>
   verdict run negative_capacity = Some ConfigError \<and>
   ending (main run as_before argv3 (input_file negative_capacity) any_path) = Exit 0"
  by code_simp

text \<open>
  C8, amended. An invocation with fewer than two positional arguments gets the usage
  message on the diagnostic stream. With both arguments given, the program exits with 0
  whenever the reader accepts the input, whether the solver's run succeeds or fails; when
  the reader rejects the input, the run is ended by the reader's error, which \<^verbatim>\<open>main\<close> does
  not handle.
\<close>
theorem exit_code_amended:
  "(length argv < 3 \<longrightarrow> Usage \<in> set (diagnostics (main solve left argv files writable))) \<and>
   (3 \<le> length argv \<longrightarrow>
      ending (main solve left argv files writable) =
        (case readDimacsMin (ifstream files (argv ! 1)) of
           Inl e \<Rightarrow> Terminate e
         | Inr i \<Rightarrow> Exit 0))"
  by (auto simp: main_def Let_def split: sum.splits)

theorem exit_code_amended_witness:
  "length argv2 < 3 \<and>
   Usage \<in> set (diagnostics (main run as_before argv2 (input_file scenario1) any_path)) \<and>
   3 \<le> length argv3 \<and>
   ending (main run as_before argv3 (input_file scenario1) any_path) = Exit 0 \<and>
   ending (main run as_before argv3 (input_file [Malformed]) any_path) =
     Terminate (FormatError 1)"
proof -
  have f: "ifstream (input_file ls) (argv3 ! 1) = ls" for ls
    by (simp add: ifstream_def input_file_def argv3_def)
  have a2: "length argv2 < 3" and a3: "3 \<le> length argv3" by (simp_all add: argv2_def argv3_def)
  have m: "readDimacsMin [Malformed] = Inl (FormatError 1)"
    by (simp add: readDimacsMin_def)
  have r: "\<not> isl (readDimacsMin scenario1)" by code_simp
  then obtain i where i: "readDimacsMin scenario1 = Inr i" by (cases "readDimacsMin scenario1") auto
  from exit_code_amended[of argv2 run as_before "input_file scenario1" any_path] a2
  have 1: "Usage \<in> set (diagnostics (main run as_before argv2 (input_file scenario1) any_path))"
    by simp
  from exit_code_amended[of argv3 run as_before "input_file scenario1" any_path, unfolded f] a3 i
  have 2: "ending (main run as_before argv3 (input_file scenario1) any_path) = Exit 0" by simp
  from exit_code_amended[of argv3 run as_before "input_file [Malformed]" any_path, unfolded f] a3 m
  have 3: "ending (main run as_before argv3 (input_file [Malformed]) any_path) =
      Terminate (FormatError 1)"
    by simp
  from a2 a3 1 2 3 show ?thesis by simp
qed

text \<open>
  C10. The computed flow, the written output file and the reported total cost do not
  depend on the lower-bound fields of the input: \<^verbatim>\<open>main\<close> reads the lower map and never hands
  it to the solver. For whatever the solver's \<^verbatim>\<open>run\<close> computes, two inputs whose lines differ
  only in the lower bounds of their arc records give the same diagnostics, the same output
  file and the same ending.
\<close>
theorem lower_bounds_ignored:
  assumes "list_all2 same_but_lower (ifstream files (argv ! 1)) (ifstream files' (argv ! 1))"
  shows "main solve left argv files writable = main solve left argv files' writable"
proof -
  from readDimacsMin_blind[OF assms] show ?thesis
    by (cases "readDimacsMin (ifstream files (argv ! 1))";
        cases "readDimacsMin (ifstream files' (argv ! 1))")
       (auto simp: main_def Let_def)
qed

theorem lower_bounds_ignored_witness:
  "list_all2 same_but_lower (ifstream (input_file (circulation 1)) (argv3 ! 1))
     (ifstream (input_file (circulation 0)) (argv3 ! 1)) \<and>
   main run as_before argv3 (input_file (circulation 1)) any_path =
   main run as_before argv3 (input_file (circulation 0)) any_path"
proof -
  have h: "list_all2 same_but_lower (ifstream (input_file (circulation 1)) (argv3 ! 1))
     (ifstream (input_file (circulation 0)) (argv3 ! 1))"
    by (simp add: ifstream_def input_file_def circulation_def argv3_def)
  from h lower_bounds_ignored[OF h, of run as_before any_path] show ?thesis by simp
qed

end
